theory Spec2Isabelle
  imports Main "HOL-Library.Multiset"
begin

section \<open>The store: workflows and jobs\<close>

text \<open>
  The two tables of \<^verbatim>\<open>createTables\<close> (database.js). A row is a record; a table is the list
  of its rows in insertion order. The columns \<^verbatim>\<open>status\<close>, \<^verbatim>\<open>name\<close> and \<^verbatim>\<open>node_name\<close>
  are VARCHAR, so they are strings here and the orchestrator's literals are written as it
  writes them; the width of a VARCHAR column is checked where a row is inserted. A
  nullable column is an \<open>option\<close>. Timestamps are readings of the clock, in
  milliseconds. The id columns are SERIAL, 32-bit INTEGERs counted up from 1: an id is a
  natural number here, and \<open>int4_max\<close> is the largest the column type holds.
\<close>

record workflow =
  wf_id :: nat
  wf_name :: string
  wf_status :: string
  property_id :: "string option"
  wf_created_at :: nat
  updated_at :: nat
  wf_completed_at :: "nat option"
  metadata :: "(string \<times> string) list"

text \<open>The object \<^verbatim>\<open>{ nodeName, status, timestamp }\<close> that \<^verbatim>\<open>executeNode\<close> returns.\<close>

record node_result =
  res_nodeName :: string
  res_status :: string
  res_timestamp :: nat

record job =
  job_id :: nat
  workflow_id :: nat
  node_name :: string
  job_status :: string
  priority :: int
  created_at :: nat
  started_at :: "nat option"
  completed_at :: "nat option"
  result :: "node_result option"
  job_error :: "string option"

text \<open>The payload \<^verbatim>\<open>{ jobId, workflowId, nodeName }\<close> of a message on the Bull queue.\<close>

record dispatch =
  jobId :: nat
  workflowId :: nat
  nodeName :: string

text \<open>
  Everything the orchestrator reads and writes: the two tables with their SERIAL
  counters, the waiting messages of the queue (oldest first), the keys of the
  \<^verbatim>\<open>activeWorkflows\<close> map, and the clock behind \<^verbatim>\<open>CURRENT_TIMESTAMP\<close> and
  \<^verbatim>\<open>new Date()\<close>. Calls to the logger are not modelled.
\<close>

record world =
  workflows :: "workflow list"
  jobs :: "job list"
  next_workflow_id :: nat
  next_job_id :: nat
  jobQueue :: "dispatch list"
  activeWorkflows :: "nat list"
  clock :: nat

definition int4_max :: nat where
  "int4_max = 2147483647"

definition initial_world :: world where
  "initial_world =
     \<lparr>workflows = [], jobs = [], next_workflow_id = 1, next_job_id = 1,
      jobQueue = [], activeWorkflows = [], clock = 0\<rparr>"

section \<open>Errors\<close>

text \<open>
  Every \<^verbatim>\<open>throw\<close> is a value. An \<open>error\<close> is an Error object. \<open>WorkflowNotFound\<close> is the
  \<^verbatim>\<open>new Error(`Workflow ${workflowId} not found`)\<close> of queueWorkflow and getWorkflowStatus.
  Four are errors of the store: \<open>NotNullViolation\<close> refuses NULL in a NOT NULL column
  (of the table \<^verbatim>\<open>jobs\<close>), \<open>InvalidByteSequence\<close> refuses a text with the character NUL,
  \<open>ValueTooLong\<close> refuses a string longer than the width of its VARCHAR column, and
  \<open>IntegerOutOfRange\<close> refuses a number above the 32-bit range as the parameter compared
  with an INTEGER column. \<open>TypeError\<close> is a property read on \<^verbatim>\<open>undefined\<close>; \<open>StepError\<close> is an
  error of the step-execution unit, with its message.
\<close>

datatype error =
  WorkflowNotFound nat
  | NotNullViolation string
  | InvalidByteSequence
  | ValueTooLong nat
  | IntegerOutOfRange nat
  | TypeError string
  | StepError string

fun decimal :: "nat \<Rightarrow> string" where
  "decimal n =
     (if n < 10 then [''0123456789'' ! n]
      else decimal (n div 10) @ [''0123456789'' ! (n mod 10)])"

declare decimal.simps [simp del]

text \<open>
  The \<^verbatim>\<open>message\<close> property of each error; \<open>quoted\<close> puts a text between double quotes. (The
  text for a number out of range is the store's for numbers below 1e21, which the driver
  sends in plain decimal digits.)
\<close>

definition quoted :: "string \<Rightarrow> string" where
  "quoted s = CHR 0x22 # s @ [CHR 0x22]"

fun message :: "error \<Rightarrow> string" where
  "message (WorkflowNotFound n) = ''Workflow '' @ decimal n @ '' not found''"
| "message (NotNullViolation col) =
     ''null value in column '' @ quoted col @ '' of relation '' @ quoted ''jobs'' @
     '' violates not-null constraint''"
| "message InvalidByteSequence =
     ''invalid byte sequence for encoding '' @ quoted ''UTF8'' @ '': 0x00''"
| "message (ValueTooLong n) =
     ''value too long for type character varying('' @ decimal n @ '')''"
| "message (IntegerOutOfRange n) =
     ''value '' @ quoted (decimal n) @ '' is out of range for type integer''"
| "message (TypeError m) = m"
| "message (StepError m) = m"

text \<open>
  The values a \<^verbatim>\<open>throw\<close> inside the step-execution unit carries, by what the \<^verbatim>\<open>catch\<close>
  block of processJob reads from them: an Error object, with its message; \<^verbatim>\<open>undefined\<close>;
  \<^verbatim>\<open>null\<close>; or a value with no \<^verbatim>\<open>message\<close> property (a string, a number), given by its
  text. \<open>read_message\<close> is the expression \<^verbatim>\<open>error.message\<close>: the message of an Error
  object, a TypeError on \<^verbatim>\<open>undefined\<close> and on \<^verbatim>\<open>null\<close>, and \<^verbatim>\<open>undefined\<close> (\<open>None\<close>) on a
  value without the property.
\<close>

datatype thrown =
  ErrorObject error
  | UndefinedValue
  | NullValue
  | OtherValue string

fun read_message :: "thrown \<Rightarrow> error + string option" where
  "read_message (ErrorObject e) = Inr (Some (message e))"
| "read_message UndefinedValue =
     Inl (TypeError ''Cannot read properties of undefined (reading 'message')'')"
| "read_message NullValue =
     Inl (TypeError ''Cannot read properties of null (reading 'message')'')"
| "read_message (OtherValue v) = Inr None"

section \<open>getExecutionPlan\<close>

text \<open>
  The value of \<^verbatim>\<open>plans[workflowType] || plans['test']\<close>. \<^verbatim>\<open>plans\<close> is an object literal,
  so a property read that finds no own property goes on to \<^verbatim>\<open>Object.prototype\<close>: the
  read yields an array of step names, a built-in function (with its \<^verbatim>\<open>length\<close>), the
  prototype object itself (for \<^verbatim>\<open>__proto__\<close>), or \<^verbatim>\<open>undefined\<close>.
\<close>

datatype js_value =
  Undefined
  | StepArray "string list"
  | BuiltinFunction string nat
  | ObjectPrototype

definition plans :: "(string \<times> string list) list" where
  "plans =
     [(''full_listing'',
        [''mls_data_ingester'', ''property_photos_collector'', ''competitive_analysis_engine'',
         ''master_content_generator'', ''facebook_post_generator'', ''instagram_caption_generator'',
         ''facebook_publisher'', ''instagram_publisher'',
         ''engagement_tracker'',
         ''lead_capture_monitor'']),
      (''test'', [''test_node''])]"

text \<open>The properties every object literal inherits, with the \<^verbatim>\<open>length\<close> of each function.\<close>

definition object_prototype :: "(string \<times> js_value) list" where
  "object_prototype =
     [(''constructor'', BuiltinFunction ''Object'' 1),
      (''__defineGetter__'', BuiltinFunction ''__defineGetter__'' 2),
      (''__defineSetter__'', BuiltinFunction ''__defineSetter__'' 2),
      (''hasOwnProperty'', BuiltinFunction ''hasOwnProperty'' 1),
      (''__lookupGetter__'', BuiltinFunction ''__lookupGetter__'' 1),
      (''__lookupSetter__'', BuiltinFunction ''__lookupSetter__'' 1),
      (''isPrototypeOf'', BuiltinFunction ''isPrototypeOf'' 1),
      (''propertyIsEnumerable'', BuiltinFunction ''propertyIsEnumerable'' 1),
      (''toString'', BuiltinFunction ''toString'' 0),
      (''valueOf'', BuiltinFunction ''valueOf'' 0),
      (''__proto__'', ObjectPrototype),
      (''toLocaleString'', BuiltinFunction ''toLocaleString'' 0)]"

definition plans_get :: "string \<Rightarrow> js_value" where
  "plans_get key =
     (case map_of plans key of
        Some steps \<Rightarrow> StepArray steps
      | None \<Rightarrow> (case map_of object_prototype key of Some v \<Rightarrow> v | None \<Rightarrow> Undefined))"

text \<open>Arrays (also empty ones), functions and objects are truthy; \<^verbatim>\<open>undefined\<close> is not.\<close>

fun truthy :: "js_value \<Rightarrow> bool" where
  "truthy Undefined = False"
| "truthy (StepArray steps) = True"
| "truthy (BuiltinFunction f n) = True"
| "truthy ObjectPrototype = True"

definition getExecutionPlan :: "string \<Rightarrow> js_value" where
  "getExecutionPlan workflowType =
     (if truthy (plans_get workflowType) then plans_get workflowType else plans_get ''test'')"

section \<open>Statements against the store\<close>

text \<open>
  \<^verbatim>\<open>INSERT INTO workflows (name, status, property_id, metadata) ... RETURNING id\<close>: the id
  is the next value of the SERIAL counter, the timestamps default to the clock. The
  columns are \<^verbatim>\<open>name VARCHAR(255)\<close>, \<^verbatim>\<open>status VARCHAR(50)\<close> and \<^verbatim>\<open>property_id VARCHAR(255)\<close>.
  The store refuses a text parameter with the character NUL, and a string longer than
  the width of its column: \<open>refused\<close> is the error, if there is one. The statement then
  fails before a row or an id is made. The counters themselves are taken to stay within
  the INTEGER range.
\<close>

definition has_nul :: "string \<Rightarrow> bool" where
  "has_nul s \<longleftrightarrow> CHR 0x00 \<in> set s"

definition refused :: "string \<Rightarrow> string \<Rightarrow> string option \<Rightarrow> error option" where
  "refused name st pid =
     (if has_nul name \<or> has_nul st \<or> (case pid of None \<Rightarrow> False | Some p \<Rightarrow> has_nul p)
      then Some InvalidByteSequence
      else if 255 < length name then Some (ValueTooLong 255)
      else if 50 < length st then Some (ValueTooLong 50)
      else if (case pid of None \<Rightarrow> False | Some p \<Rightarrow> 255 < length p) then Some (ValueTooLong 255)
      else None)"

definition insertWorkflow ::
  "string \<Rightarrow> string \<Rightarrow> string option \<Rightarrow> (string \<times> string) list \<Rightarrow> world \<Rightarrow>
     (error + nat) \<times> world" where
  "insertWorkflow name st pid md w =
     (case refused name st pid of
        Some e \<Rightarrow> (Inl e, w)
      | None \<Rightarrow>
          (Inr (next_workflow_id w),
           w\<lparr>workflows := workflows w @
                [\<lparr>wf_id = next_workflow_id w, wf_name = name, wf_status = st, property_id = pid,
                  wf_created_at = clock w, updated_at = clock w, wf_completed_at = None,
                  metadata = md\<rparr>],
             next_workflow_id := Suc (next_workflow_id w)\<rparr>))"

text \<open>The rows of \<^verbatim>\<open>workflows\<close> with a given id.\<close>

definition selectWorkflow :: "nat \<Rightarrow> world \<Rightarrow> workflow list" where
  "selectWorkflow wid w = filter (\<lambda>x. wf_id x = wid) (workflows w)"

text \<open>
  \<^verbatim>\<open>SELECT * FROM workflows WHERE id = $1\<close> with a number of the caller as the parameter.
  The id column is a 32-bit INTEGER, so the store rejects a parameter above 2147483647
  instead of answering with no row. No row of the table has such an id; the rejection is
  written for the case in which no row is found. The other statements are reached with
  ids that rows of the store carry.
\<close>

definition queryWorkflow :: "nat \<Rightarrow> world \<Rightarrow> error + workflow list" where
  "queryWorkflow wid w =
     (if selectWorkflow wid w = [] \<and> int4_max < wid then Inl (IntegerOutOfRange wid)
      else Inr (selectWorkflow wid w))"

text \<open>\<^verbatim>\<open>UPDATE workflows SET ... WHERE id = $1\<close>, with the assignment as a function on the row.\<close>

definition updateWorkflow :: "nat \<Rightarrow> (workflow \<Rightarrow> workflow) \<Rightarrow> world \<Rightarrow> world" where
  "updateWorkflow wid f w =
     w\<lparr>workflows := map (\<lambda>x. if wf_id x = wid then f x else x) (workflows w)\<rparr>"

text \<open>
  \<^verbatim>\<open>INSERT INTO jobs (workflow_id, node_name, status, priority)\<close>. The step name is what
  \<^verbatim>\<open>executionPlan[i]\<close> gave: \<open>None\<close> is \<^verbatim>\<open>undefined\<close>, which the driver sends as NULL, and
  the column is NOT NULL, so the statement fails (the counter has advanced by then).
\<close>

definition insertJob ::
  "nat \<Rightarrow> string option \<Rightarrow> string \<Rightarrow> int \<Rightarrow> world \<Rightarrow> (error + unit) \<times> world" where
  "insertJob wid step st prio w =
     (case step of
        None \<Rightarrow> (Inl (NotNullViolation ''node_name''), w\<lparr>next_job_id := Suc (next_job_id w)\<rparr>)
      | Some name \<Rightarrow>
          (Inr (),
           w\<lparr>jobs := jobs w @
                [\<lparr>job_id = next_job_id w, workflow_id = wid, node_name = name, job_status = st,
                  priority = prio, created_at = clock w, started_at = None,
                  completed_at = None, result = None, job_error = None\<rparr>],
             next_job_id := Suc (next_job_id w)\<rparr>))"

text \<open>\<^verbatim>\<open>UPDATE jobs SET ... WHERE id = $1\<close>\<close>

definition updateJob :: "nat \<Rightarrow> (job \<Rightarrow> job) \<Rightarrow> world \<Rightarrow> world" where
  "updateJob jid f w = w\<lparr>jobs := map (\<lambda>j. if job_id j = jid then f j else j) (jobs w)\<rparr>"

text \<open>
  \<^verbatim>\<open>SELECT * FROM jobs WHERE workflow_id = $1 AND status = 'pending' ORDER BY priority ASC LIMIT 1\<close>.
  The sort is the stable one; among rows of equal priority the store may return any.
\<close>

definition selectNextPending :: "nat \<Rightarrow> world \<Rightarrow> job list" where
  "selectNextPending wid w =
     take 1 (sort_key priority
       (filter (\<lambda>j. workflow_id j = wid \<and> job_status j = ''pending'') (jobs w)))"

text \<open>\<^verbatim>\<open>SELECT * FROM jobs WHERE workflow_id = $1 ORDER BY priority ASC\<close>\<close>

definition selectJobs :: "nat \<Rightarrow> world \<Rightarrow> job list" where
  "selectJobs wid w = sort_key priority (filter (\<lambda>j. workflow_id j = wid) (jobs w))"

section \<open>The orchestrator\<close>

text \<open>
  An async method is a function from the world to its outcome and the world it leaves:
  \<open>Inl\<close> is the error it rejects with, \<open>Inr\<close> the value it resolves to.
\<close>

text \<open>completeWorkflow: one UPDATE, then \<^verbatim>\<open>this.activeWorkflows.delete(workflowId)\<close>.\<close>

definition completeWorkflow :: "nat \<Rightarrow> world \<Rightarrow> (error + unit) \<times> world" where
  "completeWorkflow wid w =
     (Inr (),
      (updateWorkflow wid
         (\<lambda>x. x\<lparr>wf_status := ''completed'', wf_completed_at := Some (clock w),
                updated_at := clock w\<rparr>) w)
       \<lparr>activeWorkflows := removeAll wid (activeWorkflows w)\<rparr>)"

text \<open>
  processNextJob: with no pending job left the workflow is completed; otherwise the
  first row is put on the queue (\<^verbatim>\<open>jobQueue.add\<close>) and the method returns.
\<close>

definition processNextJob :: "nat \<Rightarrow> world \<Rightarrow> (error + unit) \<times> world" where
  "processNextJob wid w =
     (case selectNextPending wid w of
        [] \<Rightarrow> completeWorkflow wid w
      | j # _ \<Rightarrow>
          (Inr (),
           w\<lparr>jobQueue := jobQueue w @
                [\<lparr>jobId = job_id j, workflowId = wid, nodeName = node_name j\<rparr>]\<rparr>))"

text \<open>\<^verbatim>\<open>executionPlan.length\<close> and \<^verbatim>\<open>executionPlan[i]\<close>; \<open>None\<close> is \<^verbatim>\<open>undefined\<close>.\<close>

fun plan_length :: "js_value \<Rightarrow> nat option" where
  "plan_length (StepArray steps) = Some (length steps)"
| "plan_length (BuiltinFunction f n) = Some n"
| "plan_length ObjectPrototype = None"
| "plan_length Undefined = None"

fun plan_step :: "js_value \<Rightarrow> nat \<Rightarrow> string option" where
  "plan_step (StepArray steps) i = (if i < length steps then Some (steps ! i) else None)"
| "plan_step (BuiltinFunction f n) i = None"
| "plan_step ObjectPrototype i = None"
| "plan_step Undefined i = None"

text \<open>
  The loop \<^verbatim>\<open>for (let i = 0; i < executionPlan.length; i++)\<close> of queueWorkflow, from
  index \<open>i\<close> on. \<^verbatim>\<open>i < undefined\<close> is false. A failing INSERT ends the loop with its error;
  the rows inserted before it stay.
\<close>

function queueJobs :: "nat \<Rightarrow> js_value \<Rightarrow> nat \<Rightarrow> world \<Rightarrow> (error + unit) \<times> world" where
  "queueJobs wid executionPlan i w =
     (if (case plan_length executionPlan of None \<Rightarrow> False | Some n \<Rightarrow> i < n) then
        (case insertJob wid (plan_step executionPlan i) ''pending'' (int i + 1) w of
           (Inl e, w') \<Rightarrow> (Inl e, w')
         | (Inr u, w') \<Rightarrow> queueJobs wid executionPlan (Suc i) w')
      else (Inr (), w))"
  by pat_completeness auto
termination
  by (relation "measure (\<lambda>(wid, executionPlan, i, w).
        case plan_length executionPlan of None \<Rightarrow> 0 | Some n \<Rightarrow> n - i)")
     (auto split: option.splits)

declare queueJobs.simps [simp del]

text \<open>\<^verbatim>\<open>UPDATE workflows SET status = 'queued', updated_at = CURRENT_TIMESTAMP WHERE id = $2\<close>\<close>

definition markQueued :: "nat \<Rightarrow> world \<Rightarrow> world" where
  "markQueued wid w =
     updateWorkflow wid (\<lambda>x. x\<lparr>wf_status := ''queued'', updated_at := clock w\<rparr>) w"

text \<open>
  queueWorkflow. \<^verbatim>\<open>rows[0]\<close> is the first row of the SELECT. The plan is resolved from
  the stored name; reading \<^verbatim>\<open>.length\<close> of \<^verbatim>\<open>undefined\<close> would throw.
\<close>

definition queueWorkflow :: "nat \<Rightarrow> world \<Rightarrow> (error + unit) \<times> world" where
  "queueWorkflow wid w =
     (case queryWorkflow wid w of
        Inl e \<Rightarrow> (Inl e, w)
      | Inr [] \<Rightarrow> (Inl (WorkflowNotFound wid), w)
      | Inr (workflow # _) \<Rightarrow>
          (let executionPlan = getExecutionPlan (wf_name workflow) in
           if executionPlan = Undefined then
             (Inl (TypeError ''Cannot read properties of undefined (reading 'length')''), w)
           else
             (case queueJobs wid executionPlan 0 w of
                (Inl e, w1) \<Rightarrow> (Inl e, w1)
              | (Inr u, w1) \<Rightarrow> processNextJob wid (markQueued wid w1))))"

text \<open>
  createWorkflow. The default of the parameter \<^verbatim>\<open>workflowType\<close> is \<^verbatim>\<open>'full_listing'\<close>;
  the metadata is \<^verbatim>\<open>{ type: workflowType }\<close>. An error of the INSERT or of queueWorkflow
  is thrown again.
\<close>

definition createWorkflow ::
  "string option \<Rightarrow> string option \<Rightarrow> world \<Rightarrow> (error + nat) \<times> world" where
  "createWorkflow propertyId workflowType_arg w =
     (let workflowType = (case workflowType_arg of None \<Rightarrow> ''full_listing'' | Some t \<Rightarrow> t)
      in case insertWorkflow workflowType ''pending'' propertyId [(''type'', workflowType)] w of
           (Inl e, w1) \<Rightarrow> (Inl e, w1)
         | (Inr wid, w1) \<Rightarrow>
             (case queueWorkflow wid w1 of
                (Inl e, w2) \<Rightarrow> (Inl e, w2)
              | (Inr u, w2) \<Rightarrow> (Inr wid, w2)))"

text \<open>
  The step-execution unit: from the step name, the workflow id and the clock to the
  outcome and the clock afterwards. A \<open>step_unit\<close> may throw any value; an \<open>execute_unit\<close>
  is a unit whose failures are Error objects, and \<open>throwing_errors\<close> reads it as a
  \<open>step_unit\<close>. executeNode is the unit the repository ships: it waits 1000 ms and
  returns its result object.
\<close>

type_synonym step_unit = "string \<Rightarrow> nat \<Rightarrow> nat \<Rightarrow> (thrown + node_result) \<times> nat"

type_synonym execute_unit = "string \<Rightarrow> nat \<Rightarrow> nat \<Rightarrow> (error + node_result) \<times> nat"

definition throwing_errors :: "execute_unit \<Rightarrow> step_unit" where
  "throwing_errors exec name wid now =
     (case exec name wid now of
        (Inl e, later) \<Rightarrow> (Inl (ErrorObject e), later)
      | (Inr res, later) \<Rightarrow> (Inr res, later))"

definition executeNode :: execute_unit where
  "executeNode name wid now =
     (Inr \<lparr>res_nodeName = name, res_status = ''success'', res_timestamp = now + 1000\<rparr>,
      now + 1000)"

text \<open>The four UPDATE statements of processJob, in the order they stand in the source.\<close>

definition markRunning :: "nat \<Rightarrow> world \<Rightarrow> world" where
  "markRunning jid w =
     updateJob jid (\<lambda>j. j\<lparr>job_status := ''running'', started_at := Some (clock w)\<rparr>) w"

definition markCompleted :: "nat \<Rightarrow> node_result \<Rightarrow> world \<Rightarrow> world" where
  "markCompleted jid res w =
     updateJob jid
       (\<lambda>j. j\<lparr>job_status := ''completed'', completed_at := Some (clock w),
              result := Some res\<rparr>) w"

text \<open>In markFailed the parameter is what \<^verbatim>\<open>error.message\<close> gave; \<^verbatim>\<open>undefined\<close> is stored as NULL.\<close>

definition markFailed :: "nat \<Rightarrow> string option \<Rightarrow> world \<Rightarrow> world" where
  "markFailed jid msg w =
     updateJob jid
       (\<lambda>j. j\<lparr>job_status := ''failed'', completed_at := Some (clock w),
              job_error := msg\<rparr>) w"

definition markWorkflowFailed :: "nat \<Rightarrow> world \<Rightarrow> world" where
  "markWorkflowFailed wid w =
     updateWorkflow wid (\<lambda>x. x\<lparr>wf_status := ''failed'', updated_at := clock w\<rparr>) w"

text \<open>
  The \<^verbatim>\<open>catch\<close> block of processJob. The parameters of the first UPDATE are
  \<^verbatim>\<open>[error.message, jobId]\<close>: reading the message of \<^verbatim>\<open>undefined\<close> or \<^verbatim>\<open>null\<close> throws a
  TypeError out of the block before any statement is sent. Otherwise the two UPDATEs
  run and the caught value is thrown again.
\<close>

definition processJob_catch ::
  "dispatch \<Rightarrow> thrown \<Rightarrow> world \<Rightarrow> (thrown + node_result) \<times> world" where
  "processJob_catch bullJob err w =
     (case read_message err of
        Inl e \<Rightarrow> (Inl (ErrorObject e), w)
      | Inr msg \<Rightarrow>
          (Inl err,
           markWorkflowFailed (workflowId bullJob) (markFailed (jobId bullJob) msg w)))"

text \<open>
  processJob, with the step-execution unit as a parameter (\<^verbatim>\<open>this.executeNode\<close>). What
  the unit throws, or an error of processNextJob, reaches the \<^verbatim>\<open>catch\<close> block.
  \<open>processJob_with\<close> is processJob with a unit whose failures are Error objects, and
  processJob itself is the one with executeNode.
\<close>

definition processJob_unit ::
  "step_unit \<Rightarrow> dispatch \<Rightarrow> world \<Rightarrow> (thrown + node_result) \<times> world" where
  "processJob_unit unit bullJob w =
     (let w1 = markRunning (jobId bullJob) w
      in case unit (nodeName bullJob) (workflowId bullJob) (clock w1) of
           (Inl err, now) \<Rightarrow> processJob_catch bullJob err (w1\<lparr>clock := now\<rparr>)
         | (Inr res, now) \<Rightarrow>
             (case processNextJob (workflowId bullJob)
                     (markCompleted (jobId bullJob) res (w1\<lparr>clock := now\<rparr>)) of
                (Inl e, w2) \<Rightarrow> processJob_catch bullJob (ErrorObject e) w2
              | (Inr u, w2) \<Rightarrow> (Inr res, w2)))"

definition processJob_with ::
  "execute_unit \<Rightarrow> dispatch \<Rightarrow> world \<Rightarrow> (thrown + node_result) \<times> world" where
  "processJob_with exec = processJob_unit (throwing_errors exec)"


text \<open>getWorkflowStatus: two SELECTs.\<close>

definition getWorkflowStatus :: "nat \<Rightarrow> world \<Rightarrow> (error + workflow \<times> job list) \<times> world" where
  "getWorkflowStatus wid w =
     (case queryWorkflow wid w of
        Inl e \<Rightarrow> (Inl e, w)
      | Inr [] \<Rightarrow> (Inl (WorkflowNotFound wid), w)
      | Inr (workflow # _) \<Rightarrow> (Inr (workflow, selectJobs wid w), w))"

text \<open>
  The consumer registered by \<^verbatim>\<open>jobQueue.process\<close>: the queue hands its oldest waiting
  message to processJob, one message at a time. No retry is configured, so a message
  whose processing rejects is not delivered again. The unit is one whose failures are
  Error objects.
\<close>

definition deliver :: "execute_unit \<Rightarrow> world \<Rightarrow> world" where
  "deliver exec w =
     (case jobQueue w of
        [] \<Rightarrow> w
      | bullJob # waiting \<Rightarrow> snd (processJob_with exec bullJob (w\<lparr>jobQueue := waiting\<rparr>)))"

section \<open>Observations of a state\<close>

text \<open>
  What the store and the queue hold for one workflow: its job rows in table order, its
  waiting messages in queue order (its row or rows are \<open>selectWorkflow\<close>); the message
  processNextJob builds for a job; and a list of jobs all in one status.
\<close>

definition jobs_of :: "nat \<Rightarrow> world \<Rightarrow> job list" where
  "jobs_of wid w = filter (\<lambda>j. workflow_id j = wid) (jobs w)"

definition msgs_of :: "nat \<Rightarrow> world \<Rightarrow> dispatch list" where
  "msgs_of wid w = filter (\<lambda>m. workflowId m = wid) (jobQueue w)"

definition msg_of :: "job \<Rightarrow> dispatch" where
  "msg_of j = \<lparr>jobId = job_id j, workflowId = workflow_id j, nodeName = node_name j\<rparr>"

definition all_status :: "string \<Rightarrow> job list \<Rightarrow> bool" where
  "all_status s js = list_all (\<lambda>j. job_status j = s) js"

text \<open>
  The ids the store has handed out lie below its SERIAL counters, and each job refers to
  a workflow id that has been handed out (the foreign key of \<^verbatim>\<open>jobs.workflow_id\<close>).
\<close>

definition store_ok :: "world \<Rightarrow> bool" where
  "store_ok w \<longleftrightarrow>
     list_all (\<lambda>x. wf_id x < next_workflow_id w) (workflows w) \<and>
     list_all (\<lambda>j. job_id j < next_job_id w \<and> workflow_id j < next_workflow_id w) (jobs w)"

text \<open>
  The row queueWorkflow inserts for one step, and the rows it inserts for the steps of a
  plan from index \<open>i\<close> on, in a world whose next job id is the first of them.
\<close>

definition pending_job :: "nat \<Rightarrow> nat \<Rightarrow> string \<Rightarrow> int \<Rightarrow> nat \<Rightarrow> job" where
  "pending_job jid wid name prio now =
     \<lparr>job_id = jid, workflow_id = wid, node_name = name, job_status = ''pending'',
      priority = prio, created_at = now, started_at = None, completed_at = None,
      result = None, job_error = None\<rparr>"

definition plan_jobs :: "nat \<Rightarrow> string list \<Rightarrow> nat \<Rightarrow> world \<Rightarrow> job list" where
  "plan_jobs wid steps i w =
     map (\<lambda>k. pending_job (next_job_id w + (k - i)) wid (steps ! k) (int k + 1) (clock w))
       [i..<length steps]"

section \<open>Runs\<close>

text \<open>
  One step of the system around a step-execution unit: a caller creates a workflow, the
  queue delivers its oldest waiting message to processJob, or time passes. The consumer
  takes one message at a time. A state is reachable when steps lead to it from the empty
  store.
\<close>

inductive step :: "execute_unit \<Rightarrow> world \<Rightarrow> world \<Rightarrow> bool" for exec where
  create: "step exec w (snd (createWorkflow propertyId workflowType w))"
| deliver: "step exec w (deliver exec w)"
| tick: "step exec w (w\<lparr>clock := clock w + d\<rparr>)"

definition reachable :: "execute_unit \<Rightarrow> world \<Rightarrow> bool" where
  "reachable exec w \<longleftrightarrow> (step exec)\<^sup>*\<^sup>* initial_world w"

section \<open>The phases of a workflow\<close>

text \<open>
  In a reachable state a workflow id is in one of five phases. In progress: its jobs are
  some completed ones followed by pending ones, the queue holds one message of the
  workflow, for the first pending job, and its row is \<open>queued\<close>. Finished: all its jobs are
  completed, no message, its row \<open>completed\<close> with \<open>completed_at\<close> set. Halted: completed jobs,
  then a failed one, then pending ones, no message, its row \<open>failed\<close>. Rejected: the row is
  \<open>pending\<close>, with no job and no message (queueWorkflow failed). Absent: no row, no job, no
  message. The invariant adds that job ids are distinct and below the counter, that the
  jobs of a workflow stand in strictly ascending priority in the table, and that ids
  from the workflow counter on are absent.
\<close>

definition in_progress :: "nat \<Rightarrow> world \<Rightarrow> bool" where
  "in_progress wid w \<longleftrightarrow>
     (\<exists>ds p ps. jobs_of wid w = ds @ p # ps \<and> all_status ''completed'' ds \<and>
        all_status ''pending'' (p # ps) \<and> msgs_of wid w = [msg_of p]) \<and>
     map wf_status (selectWorkflow wid w) = [''queued'']"

definition finished :: "nat \<Rightarrow> world \<Rightarrow> bool" where
  "finished wid w \<longleftrightarrow>
     all_status ''completed'' (jobs_of wid w) \<and> msgs_of wid w = [] \<and>
     (\<exists>x. selectWorkflow wid w = [x] \<and> wf_status x = ''completed'' \<and>
        wf_completed_at x \<noteq> None)"

definition halted :: "nat \<Rightarrow> world \<Rightarrow> bool" where
  "halted wid w \<longleftrightarrow>
     (\<exists>ds f ps. jobs_of wid w = ds @ f # ps \<and> all_status ''completed'' ds \<and>
        job_status f = ''failed'' \<and> all_status ''pending'' ps) \<and>
     msgs_of wid w = [] \<and> map wf_status (selectWorkflow wid w) = [''failed'']"

definition rejected :: "nat \<Rightarrow> world \<Rightarrow> bool" where
  "rejected wid w \<longleftrightarrow>
     jobs_of wid w = [] \<and> msgs_of wid w = [] \<and>
     map wf_status (selectWorkflow wid w) = [''pending'']"

definition absent :: "nat \<Rightarrow> world \<Rightarrow> bool" where
  "absent wid w \<longleftrightarrow> jobs_of wid w = [] \<and> msgs_of wid w = [] \<and> selectWorkflow wid w = []"

definition phase :: "nat \<Rightarrow> world \<Rightarrow> bool" where
  "phase wid w \<longleftrightarrow>
     in_progress wid w \<or> finished wid w \<or> halted wid w \<or> rejected wid w \<or> absent wid w"

definition Inv :: "world \<Rightarrow> bool" where
  "Inv w \<longleftrightarrow>
     distinct (map job_id (jobs w)) \<and>
     list_all (\<lambda>j. job_id j < next_job_id w) (jobs w) \<and>
     (\<forall>wid. sorted_wrt (<) (map priority (jobs_of wid w)) \<and> phase wid w) \<and>
     (\<forall>wid\<ge>next_workflow_id w. absent wid w)"

text \<open>
  The row createWorkflow inserts, and the world createWorkflow leaves for a type that
  resolves to a plan.
\<close>

definition new_workflow :: "nat \<Rightarrow> string \<Rightarrow> string \<Rightarrow> string option \<Rightarrow> nat \<Rightarrow> workflow" where
  "new_workflow wid t st pid now =
     \<lparr>wf_id = wid, wf_name = t, wf_status = st, property_id = pid, wf_created_at = now,
      updated_at = now, wf_completed_at = None, metadata = [(''type'', t)]\<rparr>"

definition created_world :: "string option \<Rightarrow> string \<Rightarrow> string list \<Rightarrow> world \<Rightarrow> world" where
  "created_world pid t steps w =
     w\<lparr>workflows := workflows w @ [new_workflow (next_workflow_id w) t ''queued'' pid (clock w)],
       jobs := jobs w @ plan_jobs (next_workflow_id w) steps 0 w,
       next_workflow_id := Suc (next_workflow_id w),
       next_job_id := next_job_id w + length steps,
       jobQueue := jobQueue w @ map msg_of (take 1 (plan_jobs (next_workflow_id w) steps 0 w))\<rparr>"

text \<open>Two states hold the same jobs, messages and rows for a workflow.\<close>

definition same_view :: "nat \<Rightarrow> world \<Rightarrow> world \<Rightarrow> bool" where
  "same_view wid w w' \<longleftrightarrow>
     jobs_of wid w' = jobs_of wid w \<and> msgs_of wid w' = msgs_of wid w \<and>
     selectWorkflow wid w' = selectWorkflow wid w"

section \<open>Order of execution\<close>

text \<open>
  \<open>in_order\<close>: every job of the workflow that has left \<open>pending\<close> has all jobs of lower
  priority of that workflow in a terminal status. \<open>running_jobs\<close>: the workflow's jobs that
  are \<open>running\<close>.
\<close>

definition terminal :: "job \<Rightarrow> bool" where
  "terminal j \<longleftrightarrow> job_status j = ''completed'' \<or> job_status j = ''failed''"

definition in_order :: "nat \<Rightarrow> world \<Rightarrow> bool" where
  "in_order wid w \<longleftrightarrow>
     list_all (\<lambda>k. job_status k = ''pending'' \<or>
                 list_all (\<lambda>j. priority k \<le> priority j \<or> terminal j) (jobs_of wid w))
       (jobs_of wid w)"

definition running_jobs :: "nat \<Rightarrow> world \<Rightarrow> job list" where
  "running_jobs wid w = filter (\<lambda>j. job_status j = ''running'') (jobs_of wid w)"

section \<open>Writes to the workflows table\<close>

text \<open>
  \<open>status_writes S w w'\<close>: the workflows table of \<open>w'\<close> has the rows of \<open>w\<close>, in place, with
  their ids and names, and a row whose status differs carries a status of \<open>S\<close>.
\<close>

definition status_writes :: "string set \<Rightarrow> world \<Rightarrow> world \<Rightarrow> bool" where
  "status_writes S w w' \<longleftrightarrow>
     list_all2 (\<lambda>a b. wf_id b = wf_id a \<and> wf_name b = wf_name a \<and>
                   (wf_status b = wf_status a \<or> wf_status b \<in> S))
       (workflows w) (workflows w')"

text \<open>The place of a status on the chain pending, queued, running, completed or failed.\<close>

definition status_rank :: "string \<Rightarrow> nat" where
  "status_rank s =
     (if s = ''queued'' then 1 else if s = ''running'' then 2
      else if s = ''completed'' \<or> s = ''failed'' then 3 else 0)"

section \<open>Concrete runs\<close>

text \<open>
  Concrete runs: a \<^verbatim>\<open>test\<close> workflow created in the empty store; a \<^verbatim>\<open>test\<close> workflow
  created after a workflow of type \<^verbatim>\<open>constructor\<close>; a \<^verbatim>\<open>full_listing\<close> workflow (the
  default type) created in the empty store and its first job delivered to a unit; and a
  unit that fails on the second step of that plan and otherwise is executeNode.
\<close>

definition test_queued :: world where
  "test_queued = snd (createWorkflow (Some ''P1'') (Some ''test'') initial_world)"

definition mixed_world :: world where
  "mixed_world =
     snd (createWorkflow None (Some ''test'')
            (snd (createWorkflow None (Some ''constructor'') initial_world)))"

definition flaky_unit :: execute_unit where
  "flaky_unit name wid now =
     (if name = ''property_photos_collector''
      then (Inl (StepError ''photos unavailable''), now)
      else executeNode name wid now)"

definition listing_started :: "execute_unit \<Rightarrow> world" where
  "listing_started exec = deliver exec (snd (createWorkflow None None initial_world))"




text \<open>A label of 256 characters, and what the store accepts as a text of a given width.\<close>

definition long_label :: string where
  "long_label = replicate 256 (CHR ''x'')"

definition fits :: "nat \<Rightarrow> string \<Rightarrow> bool" where
  "fits width s \<longleftrightarrow> length s \<le> width \<and> \<not> has_nul s"

text \<open>
  A store in which the rows of the jobs table do not stand in the order of their
  priorities: workflow 1 has three jobs, inserted with the priorities 3, 1 and 2, and
  between them stands a job of workflow 2.
\<close>

definition plain_job :: "nat \<Rightarrow> nat \<Rightarrow> string \<Rightarrow> int \<Rightarrow> job" where
  "plain_job jid wid name prio =
     \<lparr>job_id = jid, workflow_id = wid, node_name = name, job_status = ''pending'',
      priority = prio, created_at = 0, started_at = None, completed_at = None,
      result = None, job_error = None\<rparr>"

definition unordered_world :: world where
  "unordered_world =
     \<lparr>workflows =
        [\<lparr>wf_id = 1, wf_name = ''test'', wf_status = ''queued'', property_id = None,
          wf_created_at = 0, updated_at = 0, wf_completed_at = None, metadata = []\<rparr>,
         \<lparr>wf_id = 2, wf_name = ''test'', wf_status = ''queued'', property_id = None,
          wf_created_at = 0, updated_at = 0, wf_completed_at = None, metadata = []\<rparr>],
      jobs = [plain_job 1 1 ''third'' 3, plain_job 2 2 ''other'' 1, plain_job 3 1 ''first'' 1,
              plain_job 4 1 ''second'' 2],
      next_workflow_id = 3, next_job_id = 5, jobQueue = [], activeWorkflows = [], clock = 0\<rparr>"

section \<open>The execution-plan resolver\<close>

lemma plans_get_test: "plans_get ''test'' = StepArray [''test_node'']"
  by (simp add: plans_get_def plans_def)

lemma getExecutionPlan_full_listing:
  "getExecutionPlan ''full_listing'' =
     StepArray [''mls_data_ingester'', ''property_photos_collector'',
       ''competitive_analysis_engine'', ''master_content_generator'',
       ''facebook_post_generator'', ''instagram_caption_generator'', ''facebook_publisher'',
       ''instagram_publisher'', ''engagement_tracker'', ''lead_capture_monitor'']"
  by (simp add: getExecutionPlan_def plans_get_def plans_def)

lemma getExecutionPlan_test: "getExecutionPlan ''test'' = StepArray [''test_node'']"
  by (simp add: getExecutionPlan_def plans_get_test)

text \<open>
  A label that is neither a key of \<^verbatim>\<open>plans\<close> nor a property of \<^verbatim>\<open>Object.prototype\<close>
  resolves to the \<^verbatim>\<open>test\<close> plan.
\<close>

lemma getExecutionPlan_fallback:
  assumes "map_of plans workflowType = None"
    and "map_of object_prototype workflowType = None"
  shows "getExecutionPlan workflowType = StepArray [''test_node'']"
  using assms by (simp add: getExecutionPlan_def plans_get_def plans_get_test [unfolded plans_get_def])

text \<open>Whatever the label, the resolver returns a truthy value; an array it returns is
  one of the two plans, so it is not empty.\<close>

lemma getExecutionPlan_truthy: "truthy (getExecutionPlan workflowType)"
  by (simp add: getExecutionPlan_def plans_get_test)

lemma getExecutionPlan_StepArray:
  assumes "getExecutionPlan workflowType = StepArray steps"
  shows "steps \<noteq> []"
proof -
  have p: "plans_get k = StepArray s \<Longrightarrow> s \<noteq> []" for k s
    by (auto simp: plans_get_def plans_def object_prototype_def split: if_splits)
  from assms show ?thesis
    by (auto simp: getExecutionPlan_def dest: p split: if_splits)
qed

text \<open>
  C5. The claim: for every input string, every unrecognized label included,
  getExecutionPlan returns a non-empty plan, and every unrecognized label yields the
  fallback plan \<^verbatim>\<open>['test_node']\<close>. The code at the label \<^verbatim>\<open>constructor\<close>, which is not a
  key of \<^verbatim>\<open>plans\<close>: the read \<^verbatim>\<open>plans['constructor']\<close> finds the inherited function
  \<^verbatim>\<open>Object\<close>, which is truthy, so the fallback is not taken and the value returned is
  that function, not a plan.
\<close>

theorem getExecutionPlan_constructor:
  "map_of plans ''constructor'' = None \<and>
   getExecutionPlan ''constructor'' = BuiltinFunction ''Object'' 1 \<and>
   getExecutionPlan ''constructor'' \<noteq> StepArray [''test_node'']"
  by (simp add: getExecutionPlan_def plans_get_def plans_def object_prototype_def)

section \<open>Frame properties of the statements\<close>

lemma sort_key_Nil_iff: "sort_key f xs = [] \<longleftrightarrow> xs = []"
  by (cases xs) simp_all

lemma filter_map_update:
  assumes "\<And>x. key (f x) = key x"
  shows "filter (\<lambda>x. key x = k) (map (\<lambda>x. if P x then f x else x) xs) =
         map (\<lambda>x. if P x then f x else x) (filter (\<lambda>x. key x = k) xs)"
  by (induction xs) (simp_all add: assms)

subsection \<open>What each statement leaves of a workflow's rows and messages\<close>

lemma jobs_of_updateJob:
  assumes "\<And>j. workflow_id (f j) = workflow_id j"
  shows "jobs_of wid (updateJob jid f w) =
         map (\<lambda>j. if job_id j = jid then f j else j) (jobs_of wid w)"
  unfolding jobs_of_def updateJob_def
  using filter_map_update [where key = workflow_id and f = f, OF assms] by simp

lemma updateJob_frame [simp]:
  "workflows (updateJob jid f w) = workflows w"
  "jobQueue (updateJob jid f w) = jobQueue w"
  "next_job_id (updateJob jid f w) = next_job_id w"
  "next_workflow_id (updateJob jid f w) = next_workflow_id w"
  "clock (updateJob jid f w) = clock w"
  "activeWorkflows (updateJob jid f w) = activeWorkflows w"
  by (simp_all add: updateJob_def)

lemma updateWorkflow_frame [simp]:
  "jobs (updateWorkflow wid f w) = jobs w"
  "jobQueue (updateWorkflow wid f w) = jobQueue w"
  "next_job_id (updateWorkflow wid f w) = next_job_id w"
  "next_workflow_id (updateWorkflow wid f w) = next_workflow_id w"
  "clock (updateWorkflow wid f w) = clock w"
  "activeWorkflows (updateWorkflow wid f w) = activeWorkflows w"
  by (simp_all add: updateWorkflow_def)

lemma selectWorkflow_updateWorkflow:
  assumes "\<And>x. wf_id (f x) = wf_id x"
  shows "selectWorkflow wid (updateWorkflow v f w) =
         (if wid = v then map f (selectWorkflow wid w) else selectWorkflow wid w)"
proof -
  have "filter (\<lambda>x. wf_id x = wid) (map (\<lambda>x. if wf_id x = v then f x else x) xs) =
        (if wid = v then map f (filter (\<lambda>x. wf_id x = wid) xs)
         else filter (\<lambda>x. wf_id x = wid) xs)" for xs
    by (induction xs) (auto simp: assms)
  then show ?thesis
    by (simp add: selectWorkflow_def updateWorkflow_def)
qed

lemma selectWorkflow_cong:
  "workflows w' = workflows w \<Longrightarrow> selectWorkflow wid w' = selectWorkflow wid w"
  by (simp add: selectWorkflow_def)

lemma jobs_of_cong: "jobs w' = jobs w \<Longrightarrow> jobs_of wid w' = jobs_of wid w"
  by (simp add: jobs_of_def)

lemma msgs_of_cong: "jobQueue w' = jobQueue w \<Longrightarrow> msgs_of wid w' = msgs_of wid w"
  by (simp add: msgs_of_def)

lemma mark_frame [simp]:
  "workflows (markRunning jid w) = workflows w"
  "jobQueue (markRunning jid w) = jobQueue w"
  "next_job_id (markRunning jid w) = next_job_id w"
  "next_workflow_id (markRunning jid w) = next_workflow_id w"
  "clock (markRunning jid w) = clock w"
  "workflows (markCompleted jid res w) = workflows w"
  "jobQueue (markCompleted jid res w) = jobQueue w"
  "next_job_id (markCompleted jid res w) = next_job_id w"
  "next_workflow_id (markCompleted jid res w) = next_workflow_id w"
  "clock (markCompleted jid res w) = clock w"
  "workflows (markFailed jid msg w) = workflows w"
  "jobQueue (markFailed jid msg w) = jobQueue w"
  "next_job_id (markFailed jid msg w) = next_job_id w"
  "next_workflow_id (markFailed jid msg w) = next_workflow_id w"
  "clock (markFailed jid msg w) = clock w"
  "jobs (markWorkflowFailed wid w) = jobs w"
  "jobQueue (markWorkflowFailed wid w) = jobQueue w"
  "next_job_id (markWorkflowFailed wid w) = next_job_id w"
  "next_workflow_id (markWorkflowFailed wid w) = next_workflow_id w"
  "clock (markWorkflowFailed wid w) = clock w"
  "jobs (markQueued wid w) = jobs w"
  "jobQueue (markQueued wid w) = jobQueue w"
  "next_job_id (markQueued wid w) = next_job_id w"
  "next_workflow_id (markQueued wid w) = next_workflow_id w"
  "clock (markQueued wid w) = clock w"
  by (simp_all add: markRunning_def markCompleted_def markFailed_def markWorkflowFailed_def
        markQueued_def)

lemma fst_completeWorkflow [simp]: "fst (completeWorkflow wid w) = Inr ()"
  by (simp add: completeWorkflow_def)

lemma completeWorkflow_frame [simp]:
  "jobs (snd (completeWorkflow wid w)) = jobs w"
  "jobQueue (snd (completeWorkflow wid w)) = jobQueue w"
  "next_job_id (snd (completeWorkflow wid w)) = next_job_id w"
  "next_workflow_id (snd (completeWorkflow wid w)) = next_workflow_id w"
  "clock (snd (completeWorkflow wid w)) = clock w"
  by (simp_all add: completeWorkflow_def)

lemma workflows_completeWorkflow:
  "workflows (snd (completeWorkflow wid w)) =
     map (\<lambda>x. if wf_id x = wid
               then x\<lparr>wf_status := ''completed'', wf_completed_at := Some (clock w),
                      updated_at := clock w\<rparr>
               else x) (workflows w)"
  by (simp add: completeWorkflow_def updateWorkflow_def)

lemma selectWorkflow_completeWorkflow:
  "selectWorkflow wid (snd (completeWorkflow v w)) =
     (if wid = v
      then map (\<lambda>x. x\<lparr>wf_status := ''completed'', wf_completed_at := Some (clock w),
                      updated_at := clock w\<rparr>) (selectWorkflow wid w)
      else selectWorkflow wid w)"
proof -
  have "selectWorkflow wid (snd (completeWorkflow v w)) =
        selectWorkflow wid (updateWorkflow v (\<lambda>x. x\<lparr>wf_status := ''completed'',
           wf_completed_at := Some (clock w), updated_at := clock w\<rparr>) w)"
    by (rule selectWorkflow_cong) (simp add: completeWorkflow_def)
  then show ?thesis
    by (simp add: selectWorkflow_updateWorkflow)
qed

lemma fst_processNextJob [simp]: "fst (processNextJob wid w) = Inr ()"
  by (simp add: processNextJob_def split: list.splits)

lemma processNextJob_frame [simp]:
  "jobs (snd (processNextJob wid w)) = jobs w"
  "next_job_id (snd (processNextJob wid w)) = next_job_id w"
  "next_workflow_id (snd (processNextJob wid w)) = next_workflow_id w"
  "clock (snd (processNextJob wid w)) = clock w"
  by (simp_all add: processNextJob_def split: list.splits)

lemma selectNextPending_eq:
  "selectNextPending wid w =
     take 1 (sort_key priority (filter (\<lambda>j. job_status j = ''pending'') (jobs_of wid w)))"
  by (simp add: selectNextPending_def jobs_of_def conj_commute)

lemma selectNextPending_Nil:
  "selectNextPending wid w = [] \<longleftrightarrow>
     list_all (\<lambda>j. job_status j \<noteq> ''pending'') (jobs_of wid w)"
  by (simp add: selectNextPending_eq take_eq_Nil sort_key_Nil_iff filter_empty_conv list_all_iff)

subsection \<open>Updating the one row of a message\<close>

lemma jobs_of_member: "j \<in> set (jobs_of wid w) \<longleftrightarrow> j \<in> set (jobs w) \<and> workflow_id j = wid"
  by (auto simp: jobs_of_def)

lemma distinct_jobs_of:
  "distinct (map job_id (jobs w)) \<Longrightarrow> distinct (map job_id (jobs_of wid w))"
  by (simp add: jobs_of_def distinct_map_filter)

lemma jobs_of_update_row:
  assumes d: "distinct (map job_id (jobs w))"
    and js: "jobs_of v w = ds @ p # ps"
    and f: "\<And>j. workflow_id (f j) = workflow_id j"
  shows "jobs_of wid (updateJob (job_id p) f w) =
         (if wid = v then ds @ f p # ps else jobs_of wid w)"
proof (cases "wid = v")
  case True
  have "distinct (map job_id (ds @ p # ps))"
    using distinct_jobs_of [OF d, of v] js by simp
  then have "\<forall>j\<in>set ds \<union> set ps. job_id j \<noteq> job_id p"
    by (auto simp: image_iff)
  then have "map (\<lambda>j. if job_id j = job_id p then f j else j) ds = ds"
    and "map (\<lambda>j. if job_id j = job_id p then f j else j) ps = ps"
    by (simp_all add: map_idI)
  with True js show ?thesis
    by (simp add: jobs_of_updateJob [OF f])
next
  case False
  have p: "p \<in> set (jobs w)" "workflow_id p = v"
    using js jobs_of_member [of p v w] by simp_all
  have "job_id j \<noteq> job_id p" if "j \<in> set (jobs_of wid w)" for j
  proof
    assume e: "job_id j = job_id p"
    from that have j: "j \<in> set (jobs w)" "workflow_id j = wid"
      by (simp_all add: jobs_of_member)
    from d have "inj_on job_id (set (jobs w))"
      by (simp add: distinct_map)
    with e j p have "j = p"
      by (auto dest: inj_onD)
    with j p False show False by simp
  qed
  then have "map (\<lambda>j. if job_id j = job_id p then f j else j) (jobs_of wid w) = jobs_of wid w"
    by (simp add: map_idI)
  with False show ?thesis
    by (simp add: jobs_of_updateJob [OF f])
qed

lemma job_ids_updateJob:
  assumes "\<And>j. job_id (f j) = job_id j"
  shows "map job_id (jobs (updateJob jid f w)) = map job_id (jobs w)"
  by (simp add: updateJob_def assms comp_def cong: if_cong)

section \<open>A delivery\<close>

lemma processJob_with_failure:
  assumes "exec (nodeName m) (workflowId m) (clock w) = (Inl e, now)"
  shows "processJob_with exec m w =
         (Inl (ErrorObject e), markWorkflowFailed (workflowId m)
            (markFailed (jobId m) (Some (message e)) ((markRunning (jobId m) w)\<lparr>clock := now\<rparr>)))"
  using assms
  by (simp add: processJob_with_def processJob_unit_def throwing_errors_def processJob_catch_def
      markRunning_def updateJob_def)

lemma processJob_with_success:
  assumes "exec (nodeName m) (workflowId m) (clock w) = (Inr res, now)"
  shows "processJob_with exec m w =
         (Inr res, snd (processNextJob (workflowId m)
                     (markCompleted (jobId m) res ((markRunning (jobId m) w)\<lparr>clock := now\<rparr>))))"
proof -
  obtain u w2 where p: "processNextJob (workflowId m)
       (markCompleted (jobId m) res ((markRunning (jobId m) w)\<lparr>clock := now\<rparr>)) = (u, w2)"
    by (cases "processNextJob (workflowId m)
       (markCompleted (jobId m) res ((markRunning (jobId m) w)\<lparr>clock := now\<rparr>))")
  then have "u = Inr ()"
    using fst_processNextJob [of "workflowId m"
        "markCompleted (jobId m) res ((markRunning (jobId m) w)\<lparr>clock := now\<rparr>)"] by simp
  with p assms show ?thesis
    by (simp add: processJob_with_def processJob_unit_def throwing_errors_def
        markRunning_def updateJob_def)
qed

lemma phase_head:
  assumes inv: "Inv w" and q: "jobQueue w = m # rest"
  obtains ds p ps where
    "jobs_of (workflowId m) w = ds @ p # ps"
    "all_status ''completed'' ds" "all_status ''pending'' (p # ps)"
    "m = msg_of p" "msgs_of (workflowId m) (w\<lparr>jobQueue := rest\<rparr>) = []"
    "map wf_status (selectWorkflow (workflowId m) w) = [''queued'']"
proof -
  let ?v = "workflowId m"
  have ms: "msgs_of ?v w = m # filter (\<lambda>x. workflowId x = ?v) rest"
    by (simp add: msgs_of_def q)
  from inv have "phase ?v w"
    by (simp add: Inv_def)
  with ms have "in_progress ?v w"
    by (auto simp: phase_def finished_def halted_def rejected_def absent_def)
  then obtain ds p ps where js: "jobs_of ?v w = ds @ p # ps" "all_status ''completed'' ds"
      "all_status ''pending'' (p # ps)" and m: "msgs_of ?v w = [msg_of p]"
      and st: "map wf_status (selectWorkflow ?v w) = [''queued'']"
    by (auto simp: in_progress_def)
  from ms m have "m = msg_of p" "filter (\<lambda>x. workflowId x = ?v) rest = []"
    by simp_all
  then have mm: "m = msg_of p" "msgs_of ?v (w\<lparr>jobQueue := rest\<rparr>) = []"
    by (simp_all add: msgs_of_def)
  show thesis
    by (rule that [OF js mm st])
qed

subsection \<open>The rows after processJob\<close>

lemma jobs_after_failure:
  "jobs (markWorkflowFailed v (markFailed jid msg ((markRunning jid w)\<lparr>clock := now\<rparr>))) =
   jobs (updateJob jid
     (\<lambda>j. j\<lparr>job_status := ''failed'', started_at := Some (clock w), completed_at := Some now,
            job_error := msg\<rparr>) w)"
  by (auto simp: markRunning_def markFailed_def updateJob_def)

lemma jobs_after_success:
  "jobs (markCompleted jid res ((markRunning jid w)\<lparr>clock := now\<rparr>)) =
   jobs (updateJob jid
     (\<lambda>j. j\<lparr>job_status := ''completed'', started_at := Some (clock w),
            completed_at := Some now, result := Some res\<rparr>) w)"
  by (auto simp: markRunning_def markCompleted_def updateJob_def)

lemma workflows_after_failure:
  "workflows (markWorkflowFailed v (markFailed jid msg ((markRunning jid w)\<lparr>clock := now\<rparr>))) =
   workflows (updateWorkflow v (\<lambda>x. x\<lparr>wf_status := ''failed'', updated_at := now\<rparr>) w)"
  by (simp add: markWorkflowFailed_def updateWorkflow_def)

lemma pending_rest:
  assumes "all_status ''completed'' ds" and "job_status p' \<noteq> ''pending''"
    and "all_status ''pending'' ps"
  shows "filter (\<lambda>j. job_status j = ''pending'') (ds @ p' # ps) = ps"
proof -
  have "filter (\<lambda>j. job_status j = ''pending'') ds = []"
    using assms(1) by (auto simp: all_status_def list_all_iff filter_empty_conv)
  moreover have "filter (\<lambda>j. job_status j = ''pending'') ps = ps"
    using assms(3) by (auto simp: all_status_def list_all_iff filter_id_conv)
  ultimately show ?thesis
    using assms(2) by simp
qed

lemma selectNextPending_rest:
  assumes js: "jobs_of v w = ds @ p' # ps"
    and st: "all_status ''completed'' ds" "job_status p' \<noteq> ''pending''" "all_status ''pending'' ps"
    and so: "sorted_wrt (<) (map priority (jobs_of v w))"
  shows "selectNextPending v w = take 1 ps"
proof -
  from so js have "sorted_wrt (<) (map priority ps)"
    by (simp add: sorted_wrt_append)
  then have "sort_key priority ps = ps"
    by (intro sort_key_id_if_sorted strict_sorted_imp_sorted)
  then show ?thesis
    unfolding selectNextPending_eq js pending_rest [OF st] by simp
qed

lemma deliver_Cons:
  "jobQueue w = m # rest \<Longrightarrow>
   deliver exec w = snd (processJob_with exec m (w\<lparr>jobQueue := rest\<rparr>))"
  by (simp add: deliver_def)

lemma jobs_of_queue [simp]: "jobs_of wid (w\<lparr>jobQueue := q\<rparr>) = jobs_of wid w"
  by (simp add: jobs_of_def)

lemma selectWorkflow_queue [simp]: "selectWorkflow wid (w\<lparr>jobQueue := q\<rparr>) = selectWorkflow wid w"
  by (simp add: selectWorkflow_def)

lemma deliver_failure:
  assumes d: "distinct (map job_id (jobs w))"
    and q: "jobQueue w = m # rest"
    and js: "jobs_of (workflowId m) w = ds @ p # ps"
    and m: "m = msg_of p"
    and ex: "exec (nodeName m) (workflowId m) (clock w) = (Inl e, now)"
  shows "jobs_of wid (deliver exec w) =
           (if wid = workflowId m
            then ds @ p\<lparr>job_status := ''failed'', started_at := Some (clock w),
                        completed_at := Some now, job_error := Some (message e)\<rparr> # ps
            else jobs_of wid w)"
    and "jobQueue (deliver exec w) = rest"
    and "selectWorkflow wid (deliver exec w) =
           (if wid = workflowId m
            then map (\<lambda>x. x\<lparr>wf_status := ''failed'', updated_at := now\<rparr>) (selectWorkflow wid w)
            else selectWorkflow wid w)"
    and "map job_id (jobs (deliver exec w)) = map job_id (jobs w)"
    and "next_job_id (deliver exec w) = next_job_id w"
    and "next_workflow_id (deliver exec w) = next_workflow_id w"
    and "processJob_with exec m (w\<lparr>jobQueue := rest\<rparr>) = (Inl (ErrorObject e), deliver exec w)"
proof -
  let ?w0 = "w\<lparr>jobQueue := rest\<rparr>"
  let ?f = "\<lambda>j. j\<lparr>job_status := ''failed'', started_at := Some (clock w),
                    completed_at := Some now, job_error := Some (message e)\<rparr>"
  have jid: "jobId m = job_id p"
    using m by (simp add: msg_of_def)
  have ex0: "exec (nodeName m) (workflowId m) (clock ?w0) = (Inl e, now)"
    using ex by simp
  note pf = processJob_with_failure [of exec m ?w0 e now, OF ex0]
  have w': "deliver exec w = markWorkflowFailed (workflowId m)
      (markFailed (jobId m) (Some (message e)) ((markRunning (jobId m) ?w0)\<lparr>clock := now\<rparr>))"
    by (simp add: deliver_Cons [OF q] pf)
  show "processJob_with exec m ?w0 = (Inl (ErrorObject e), deliver exec w)"
    by (simp add: w' pf)
  have j: "jobs (deliver exec w) = jobs (updateJob (job_id p) ?f w)"
    unfolding w' jobs_after_failure jid by (simp add: updateJob_def)
  show "jobs_of wid (deliver exec w) =
           (if wid = workflowId m then ds @ ?f p # ps else jobs_of wid w)"
    unfolding jobs_of_cong [OF j] by (rule jobs_of_update_row [OF d js]) simp
  show "map job_id (jobs (deliver exec w)) = map job_id (jobs w)"
    unfolding j by (rule job_ids_updateJob) simp
  show "jobQueue (deliver exec w) = rest"
    by (simp add: w')
  have "workflows (deliver exec w) =
        workflows (updateWorkflow (workflowId m) (\<lambda>x. x\<lparr>wf_status := ''failed'', updated_at := now\<rparr>) w)"
    unfolding w' workflows_after_failure by (simp add: updateWorkflow_def)
  from selectWorkflow_cong [OF this] show "selectWorkflow wid (deliver exec w) =
           (if wid = workflowId m
            then map (\<lambda>x. x\<lparr>wf_status := ''failed'', updated_at := now\<rparr>) (selectWorkflow wid w)
            else selectWorkflow wid w)"
    by (simp add: selectWorkflow_updateWorkflow)
  show "next_job_id (deliver exec w) = next_job_id w"
    and "next_workflow_id (deliver exec w) = next_workflow_id w"
    by (simp_all add: w')
qed

lemma deliver_success:
  assumes d: "distinct (map job_id (jobs w))"
    and q: "jobQueue w = m # rest"
    and js: "jobs_of (workflowId m) w = ds @ p # ps"
    and m: "m = msg_of p"
    and so: "sorted_wrt (<) (map priority (jobs_of (workflowId m) w))"
    and st: "all_status ''completed'' ds" "all_status ''pending'' ps"
    and ex: "exec (nodeName m) (workflowId m) (clock w) = (Inr res, now)"
  shows "jobs_of wid (deliver exec w) =
           (if wid = workflowId m
            then ds @ p\<lparr>job_status := ''completed'', started_at := Some (clock w),
                        completed_at := Some now, result := Some res\<rparr> # ps
            else jobs_of wid w)"
    and "jobQueue (deliver exec w) = (case ps of [] \<Rightarrow> rest | n # _ \<Rightarrow> rest @ [msg_of n])"
    and "selectWorkflow wid (deliver exec w) =
           (if wid = workflowId m \<and> ps = []
            then map (\<lambda>x. x\<lparr>wf_status := ''completed'', wf_completed_at := Some now,
                            updated_at := now\<rparr>) (selectWorkflow wid w)
            else selectWorkflow wid w)"
    and "map job_id (jobs (deliver exec w)) = map job_id (jobs w)"
    and "next_job_id (deliver exec w) = next_job_id w"
    and "next_workflow_id (deliver exec w) = next_workflow_id w"
    and "processJob_with exec m (w\<lparr>jobQueue := rest\<rparr>) = (Inr res, deliver exec w)"
proof -
  let ?v = "workflowId m"
  let ?w0 = "w\<lparr>jobQueue := rest\<rparr>"
  let ?f = "\<lambda>j. j\<lparr>job_status := ''completed'', started_at := Some (clock w),
                    completed_at := Some now, result := Some res\<rparr>"
  let ?w3 = "markCompleted (jobId m) res ((markRunning (jobId m) ?w0)\<lparr>clock := now\<rparr>)"
  have jid: "jobId m = job_id p"
    using m by (simp add: msg_of_def)
  have ex0: "exec (nodeName m) ?v (clock ?w0) = (Inr res, now)"
    using ex by simp
  note ps = processJob_with_success [of exec m ?w0 res now, OF ex0]
  have w': "deliver exec w = snd (processNextJob ?v ?w3)"
    by (simp add: deliver_Cons [OF q] ps)
  show "processJob_with exec m ?w0 = (Inr res, deliver exec w)"
    by (simp add: w' ps)
  have j3: "jobs ?w3 = jobs (updateJob (job_id p) ?f w)"
    unfolding jobs_after_success jid by (simp add: updateJob_def)
  have j: "jobs (deliver exec w) = jobs (updateJob (job_id p) ?f w)"
    unfolding w' using j3 by simp
  have v3: "jobs_of wid ?w3 = (if wid = ?v then ds @ ?f p # ps else jobs_of wid w)" for wid
    unfolding jobs_of_cong [OF j3] by (rule jobs_of_update_row [OF d js]) simp
  show "jobs_of wid (deliver exec w) = (if wid = ?v then ds @ ?f p # ps else jobs_of wid w)"
    unfolding jobs_of_cong [OF j] by (rule jobs_of_update_row [OF d js]) simp
  show "map job_id (jobs (deliver exec w)) = map job_id (jobs w)"
    unfolding j by (rule job_ids_updateJob) simp
  have so3: "sorted_wrt (<) (map priority (jobs_of ?v ?w3))"
    using so by (simp add: v3 js)
  have nx: "selectNextPending ?v ?w3 = take 1 ps"
  proof (rule selectNextPending_rest [where p' = "?f p", OF _ st(1) _ st(2) so3])
    show "jobs_of ?v ?w3 = ds @ ?f p # ps"
      by (simp add: v3)
    show "job_status (?f p) \<noteq> ''pending''"
      by simp
  qed
  have vp: "workflow_id n = ?v" if "n \<in> set ps" for n
    using that jobs_of_member [of n ?v w] js by simp
  show "jobQueue (deliver exec w) = (case ps of [] \<Rightarrow> rest | n # _ \<Rightarrow> rest @ [msg_of n])"
    unfolding w' using vp by (cases ps) (simp_all add: processNextJob_def nx msg_of_def)
  have wf: "workflows (deliver exec w) =
      (if ps = [] then workflows (updateWorkflow ?v (\<lambda>x. x\<lparr>wf_status := ''completed'',
          wf_completed_at := Some now, updated_at := now\<rparr>) w) else workflows w)"
    unfolding w' by (cases ps) (simp_all add: processNextJob_def nx completeWorkflow_def updateWorkflow_def)
  show "selectWorkflow wid (deliver exec w) =
           (if wid = ?v \<and> ps = []
            then map (\<lambda>x. x\<lparr>wf_status := ''completed'', wf_completed_at := Some now,
                            updated_at := now\<rparr>) (selectWorkflow wid w)
            else selectWorkflow wid w)"
  proof (cases "ps = []")
    case True
    with wf have "workflows (deliver exec w) = workflows (updateWorkflow ?v (\<lambda>x. x\<lparr>wf_status := ''completed'',
          wf_completed_at := Some now, updated_at := now\<rparr>) w)"
      by simp
    from selectWorkflow_cong [OF this] True show ?thesis
      by (simp add: selectWorkflow_updateWorkflow)
  next
    case False
    with wf have "workflows (deliver exec w) = workflows w"
      by simp
    from selectWorkflow_cong [OF this] False show ?thesis
      by simp
  qed
  show "next_job_id (deliver exec w) = next_job_id w"
    and "next_workflow_id (deliver exec w) = next_workflow_id w"
    by (simp_all add: w')
qed

section \<open>The invariant\<close>

subsection \<open>Deliveries keep it\<close>

lemma phase_cong:
  assumes "jobs_of wid w' = jobs_of wid w" "msgs_of wid w' = msgs_of wid w"
    "selectWorkflow wid w' = selectWorkflow wid w"
  shows "phase wid w' = phase wid w" and "absent wid w' = absent wid w"
  by (simp_all add: phase_def in_progress_def finished_def halted_def rejected_def absent_def assms)

lemma ids_below_iff:
  "list_all (\<lambda>j. job_id j < n) js \<longleftrightarrow> (\<forall>i\<in>set (map job_id js). i < n)"
  by (auto simp: list_all_iff)

lemma all_status_append [simp]:
  "all_status s (xs @ ys) \<longleftrightarrow> all_status s xs \<and> all_status s ys"
  by (simp add: all_status_def)

lemma all_status_Cons [simp]:
  "all_status s (x # xs) \<longleftrightarrow> job_status x = s \<and> all_status s xs"
  by (simp add: all_status_def)

lemma all_status_Nil [simp]: "all_status s []"
  by (simp add: all_status_def)

lemma Inv_deliver:
  assumes inv: "Inv w"
  shows "Inv (deliver exec w)"
proof (cases "jobQueue w")
  case Nil
  then show ?thesis
    using inv by (simp add: deliver_def)
next
  case (Cons m rest)
  let ?v = "workflowId m"
  let ?w' = "deliver exec w"
  from phase_head [OF inv Cons] obtain ds p ps where
    js: "jobs_of ?v w = ds @ p # ps" and cd: "all_status ''completed'' ds"
    and pp: "all_status ''pending'' (p # ps)" and m: "m = msg_of p"
    and m0: "msgs_of ?v (w\<lparr>jobQueue := rest\<rparr>) = []"
    and st: "map wf_status (selectWorkflow ?v w) = [''queued'']"
    by blast
  from inv have d: "distinct (map job_id (jobs w))"
    and ids: "list_all (\<lambda>j. job_id j < next_job_id w) (jobs w)"
    and so: "\<And>wid. sorted_wrt (<) (map priority (jobs_of wid w))"
    and ph: "\<And>wid. phase wid w"
    and ab: "\<And>wid. next_workflow_id w \<le> wid \<Longrightarrow> absent wid w"
    by (simp_all add: Inv_def)
  have rest_v: "filter (\<lambda>x. workflowId x = ?v) rest = []"
    using m0 by (simp add: msgs_of_def)
  have rest_o: "filter (\<lambda>x. workflowId x = wid) rest = msgs_of wid w" if "wid \<noteq> ?v" for wid
    using that by (auto simp: msgs_of_def Cons)
  have v_lt: "?v < next_workflow_id w"
  proof (rule ccontr)
    assume "\<not> ?v < next_workflow_id w"
    then have "absent ?v w" by (simp add: ab)
    with st show False by (simp add: absent_def)
  qed
  from pp have pps: "all_status ''pending'' ps"
    by simp
  obtain r now where ex: "exec (nodeName m) ?v (clock w) = (r, now)"
    by (cases "exec (nodeName m) ?v (clock w)")
  obtain x where sel: "selectWorkflow ?v w = [x]" "wf_status x = ''queued''"
    using st by auto
  show ?thesis
  proof (cases r)
    case (Inl e)
    note F = deliver_failure [where exec = exec, OF d Cons js m ex [unfolded Inl]]
    have other: "phase wid ?w' = phase wid w" "absent wid ?w' = absent wid w" if "wid \<noteq> ?v" for wid
      by (rule phase_cong; simp add: F that msgs_of_def rest_o [OF that, unfolded msgs_of_def])+
    have "\<exists>dsa f psa. jobs_of ?v ?w' = dsa @ f # psa \<and> all_status ''completed'' dsa \<and>
        job_status f = ''failed'' \<and> all_status ''pending'' psa"
      using cd pps
      by (intro exI [of _ ds] exI [of _ ps] exI [of _ "p\<lparr>job_status := ''failed'',
          started_at := Some (clock w), completed_at := Some now,
          job_error := Some (message e)\<rparr>"]) (simp add: F)
    then have "halted ?v ?w'"
      unfolding halted_def by (simp add: F msgs_of_def rest_v sel)
    then have pv: "phase ?v ?w'"
      by (simp add: phase_def)
    show ?thesis
      unfolding Inv_def
    proof (intro conjI allI impI)
      show "distinct (map job_id (jobs ?w'))"
        using d by (simp add: F)
      show "list_all (\<lambda>j. job_id j < next_job_id ?w') (jobs ?w')"
        using ids unfolding ids_below_iff by (simp add: F)
      show "sorted_wrt (<) (map priority (jobs_of wid ?w'))" for wid
        using so [of wid] js by (cases "wid = ?v") (simp_all add: F)
      show "phase wid ?w'" for wid
        using pv other(1) [of wid] ph [of wid] by (cases "wid = ?v") simp_all
      show "absent wid ?w'" if "next_workflow_id ?w' \<le> wid" for wid
        using that v_lt other(2) [of wid] ab [of wid] by (simp add: F)
    qed
  next
    case (Inr res)
    note S = deliver_success [where exec = exec, OF d Cons js m so cd pps ex [unfolded Inr]]
    have other: "phase wid ?w' = phase wid w" "absent wid ?w' = absent wid w" if "wid \<noteq> ?v" for wid
    proof -
      have vn: "workflowId (msg_of n) \<noteq> wid" if "n \<in> set ps" for n
        using that jobs_of_member [of n ?v w] js \<open>wid \<noteq> ?v\<close> by (simp add: msg_of_def)
      have ms: "msgs_of wid ?w' = msgs_of wid w"
        using vn by (cases ps) (simp_all add: msgs_of_def S rest_o [OF that, unfolded msgs_of_def])
      have jo: "jobs_of wid ?w' = jobs_of wid w" and se: "selectWorkflow wid ?w' = selectWorkflow wid w"
        using that by (simp_all add: S)
      show "phase wid ?w' = phase wid w" "absent wid ?w' = absent wid w"
        by (rule phase_cong [OF jo ms se])+
    qed
    have pv: "phase ?v ?w'"
    proof (cases ps)
      case Nil
      then have "finished ?v ?w'"
        unfolding finished_def using cd by (simp add: S msgs_of_def rest_v sel)
      then show ?thesis by (simp add: phase_def)
    next
      case (Cons n ns)
      have "workflowId (msg_of n) = ?v"
        using jobs_of_member [of n ?v w] js Cons by (simp add: msg_of_def)
      then have "msgs_of ?v ?w' = [msg_of n]"
        using Cons by (simp add: msgs_of_def S rest_v)
      moreover have "jobs_of ?v ?w' = (ds @ [p\<lparr>job_status := ''completed'',
          started_at := Some (clock w), completed_at := Some now, result := Some res\<rparr>]) @ n # ns"
        using Cons by (simp add: S)
      ultimately have "in_progress ?v ?w'"
        unfolding in_progress_def using cd pps Cons st
        by (intro conjI exI [of _ "ds @ [p\<lparr>job_status := ''completed'',
          started_at := Some (clock w), completed_at := Some now, result := Some res\<rparr>]"]
          exI [of _ n] exI [of _ ns]) (simp_all add: S)
      then show ?thesis by (simp add: phase_def)
    qed
    show ?thesis
      unfolding Inv_def
    proof (intro conjI allI impI)
      show "distinct (map job_id (jobs ?w'))"
        using d by (simp add: S)
      show "list_all (\<lambda>j. job_id j < next_job_id ?w') (jobs ?w')"
        using ids unfolding ids_below_iff by (simp add: S)
      show "sorted_wrt (<) (map priority (jobs_of wid ?w'))" for wid
        using so [of wid] js by (cases "wid = ?v") (simp_all add: S)
      show "phase wid ?w'" for wid
        using pv other(1) [of wid] ph [of wid] by (cases "wid = ?v") simp_all
      show "absent wid ?w'" if "next_workflow_id ?w' \<le> wid" for wid
        using that v_lt other(2) [of wid] ab [of wid] by (simp add: S)
    qed
  qed
qed

subsection \<open>createWorkflow keeps it\<close>

lemma queueJobs_StepArray:
  "queueJobs wid (StepArray steps) i w =
     (Inr (), w\<lparr>jobs := jobs w @ plan_jobs wid steps i w,
               next_job_id := next_job_id w + (length steps - i)\<rparr>)"
proof (induction wid "StepArray steps" i w rule: queueJobs.induct)
  case (1 wid i w)
  show ?case
  proof (cases "i < length steps")
    case True
    let ?w' = "w\<lparr>jobs := jobs w @ [pending_job (next_job_id w) wid (steps ! i) (int i + 1) (clock w)],
                 next_job_id := Suc (next_job_id w)\<rparr>"
    have ins: "insertJob wid (plan_step (StepArray steps) i) ''pending'' (int i + 1) w = (Inr (), ?w')"
      using True by (simp add: insertJob_def pending_job_def)
    have rest: "plan_jobs wid steps (Suc i) ?w' =
       map (\<lambda>k. pending_job (next_job_id w + (k - i)) wid (steps ! k) (int k + 1) (clock w))
         [Suc i..<length steps]"
    proof -
      have "Suc (next_job_id w) + (k - Suc i) = next_job_id w + (k - i)" if "Suc i \<le> k" for k
        using that by arith
      then show ?thesis
        by (simp add: plan_jobs_def)
    qed
    have "queueJobs wid (StepArray steps) i w = queueJobs wid (StepArray steps) (Suc i) ?w'"
      using True ins by (subst queueJobs.simps) simp
    also have "\<dots> = (Inr (), ?w'\<lparr>jobs := jobs ?w' @ plan_jobs wid steps (Suc i) ?w',
               next_job_id := next_job_id ?w' + (length steps - Suc i)\<rparr>)"
      using "1.hyps" [OF _ ins [symmetric]] True by simp
    also have "\<dots> = (Inr (), w\<lparr>jobs := jobs w @ plan_jobs wid steps i w,
               next_job_id := next_job_id w + (length steps - i)\<rparr>)"
      using True unfolding rest by (simp add: plan_jobs_def upt_conv_Cons)
    finally show ?thesis .
  next
    case False
    then show ?thesis
      by (subst queueJobs.simps) (simp add: plan_jobs_def)
  qed
qed

lemma queueJobs_BuiltinFunction:
  "queueJobs wid (BuiltinFunction f n) 0 w =
     (if n = 0 then (Inr (), w)
      else (Inl (NotNullViolation ''node_name''), w\<lparr>next_job_id := Suc (next_job_id w)\<rparr>))"
  by (subst queueJobs.simps) (simp add: insertJob_def)

lemma queueJobs_ObjectPrototype: "queueJobs wid ObjectPrototype 0 w = (Inr (), w)"
  by (subst queueJobs.simps) simp

lemma getExecutionPlan_defined: "getExecutionPlan t \<noteq> Undefined"
  using getExecutionPlan_truthy [of t] by auto

lemma queryWorkflow_rows:
  "selectWorkflow wid w = workflow # others \<Longrightarrow> queryWorkflow wid w = Inr (workflow # others)"
  by (simp add: queryWorkflow_def)

lemma queryWorkflow_no_row:
  "selectWorkflow wid w = [] \<Longrightarrow>
   queryWorkflow wid w = (if int4_max < wid then Inl (IntegerOutOfRange wid) else Inr [])"
  by (simp add: queryWorkflow_def)

lemma queueWorkflow_no_row:
  "selectWorkflow wid w = [] \<Longrightarrow>
   queueWorkflow wid w =
     (Inl (if int4_max < wid then IntegerOutOfRange wid else WorkflowNotFound wid), w)"
  by (simp add: queueWorkflow_def queryWorkflow_no_row)

lemma queueWorkflow_StepArray:
  assumes "selectWorkflow wid w = workflow # others"
    and "getExecutionPlan (wf_name workflow) = StepArray steps"
  shows "queueWorkflow wid w =
         processNextJob wid
           (markQueued wid (w\<lparr>jobs := jobs w @ plan_jobs wid steps 0 w,
                              next_job_id := next_job_id w + length steps\<rparr>))"
  using assms by (simp add: queueWorkflow_def queryWorkflow_rows queueJobs_StepArray)

lemma queueWorkflow_no_steps:
  assumes "selectWorkflow wid w = workflow # others"
    and "getExecutionPlan (wf_name workflow) = ObjectPrototype \<or>
         getExecutionPlan (wf_name workflow) = BuiltinFunction f 0"
    and np: "list_all (\<lambda>j. job_status j \<noteq> ''pending'') (jobs_of wid w)"
  shows "queueWorkflow wid w = completeWorkflow wid (markQueued wid w)"
proof -
  have "selectNextPending wid (markQueued wid w) = []"
    using np by (simp add: selectNextPending_Nil jobs_of_cong [of "markQueued wid w" w])
  then have "processNextJob wid (markQueued wid w) = completeWorkflow wid (markQueued wid w)"
    by (simp add: processNextJob_def)
  with assms show ?thesis
    by (auto simp: queueWorkflow_def queryWorkflow_rows queueJobs_ObjectPrototype
        queueJobs_BuiltinFunction)
qed

lemma queueWorkflow_rejected:
  assumes "selectWorkflow wid w = workflow # others"
    and "getExecutionPlan (wf_name workflow) = BuiltinFunction f n" and "0 < n"
  shows "queueWorkflow wid w =
         (Inl (NotNullViolation ''node_name''), w\<lparr>next_job_id := Suc (next_job_id w)\<rparr>)"
  using assms by (simp add: queueWorkflow_def queryWorkflow_rows queueJobs_BuiltinFunction)

lemma plan_jobs_props:
  "length (plan_jobs wid steps 0 w) = length steps"
  "map job_id (plan_jobs wid steps 0 w) = map (\<lambda>k. next_job_id w + k) [0..<length steps]"
  "map priority (plan_jobs wid steps 0 w) = map (\<lambda>k. int k + 1) [0..<length steps]"
  "map node_name (plan_jobs wid steps 0 w) = steps"
  "list_all (\<lambda>j. workflow_id j = wid) (plan_jobs wid steps 0 w)"
  "all_status ''pending'' (plan_jobs wid steps 0 w)"
  by (simp_all add: plan_jobs_def pending_job_def comp_def list_all_iff all_status_def map_nth)

lemma sorted_plan_priorities: "sorted_wrt (<) (map (\<lambda>k. int k + 1) [i..<n])"
  by (simp add: sorted_wrt_map sorted_wrt_iff_nth_less)

lemma filter_plan_jobs:
  "filter (\<lambda>j. workflow_id j = v) (plan_jobs wid steps 0 w) =
     (if v = wid then plan_jobs wid steps 0 w else [])"
  using plan_jobs_props(5) [of wid steps w]
  by (auto simp: list_all_iff filter_id_conv filter_empty_conv)

lemma selectNextPending_first:
  assumes js: "jobs_of v w = ds @ ps"
    and st: "all_status ''completed'' ds" "all_status ''pending'' ps"
    and so: "sorted_wrt (<) (map priority (jobs_of v w))"
  shows "selectNextPending v w = take 1 ps"
proof -
  have "filter (\<lambda>j. job_status j = ''pending'') ds = []"
    using st(1) by (auto simp: all_status_def list_all_iff filter_empty_conv)
  moreover have "filter (\<lambda>j. job_status j = ''pending'') ps = ps"
    using st(2) by (auto simp: all_status_def list_all_iff filter_id_conv)
  moreover from so js have "sorted_wrt (<) (map priority ps)"
    by (simp add: sorted_wrt_append)
  then have "sort_key priority ps = ps"
    by (intro sort_key_id_if_sorted strict_sorted_imp_sorted)
  ultimately show ?thesis
    by (simp add: selectNextPending_eq js)
qed

lemma processNextJob_first:
  assumes js: "jobs_of v w = ds @ p # ps"
    and st: "all_status ''completed'' ds" "all_status ''pending'' (p # ps)"
    and so: "sorted_wrt (<) (map priority (jobs_of v w))"
  shows "processNextJob v w = (Inr (), w\<lparr>jobQueue := jobQueue w @ [msg_of p]\<rparr>)"
proof -
  have "selectNextPending v w = [p]"
    using selectNextPending_first [OF js st so] by simp
  moreover have "workflow_id p = v"
    using jobs_of_member [of p v w] js by simp
  ultimately show ?thesis
    by (simp add: processNextJob_def msg_of_def)
qed

lemma Inv_extend:
  assumes inv: "Inv w"
    and nw: "next_workflow_id w' = Suc (next_workflow_id w)"
    and jb: "jobs w' = jobs w @ new"
    and new_wf: "list_all (\<lambda>j. workflow_id j = next_workflow_id w) new"
    and new_ids: "map job_id new = map (\<lambda>k. next_job_id w + k) [0..<length new]"
    and nj: "next_job_id w + length new \<le> next_job_id w'"
    and pr: "sorted_wrt (<) (map priority new)"
    and ms: "\<And>wid. wid \<noteq> next_workflow_id w \<Longrightarrow> msgs_of wid w' = msgs_of wid w"
    and ws: "\<And>wid. wid \<noteq> next_workflow_id w \<Longrightarrow> selectWorkflow wid w' = selectWorkflow wid w"
    and ph: "phase (next_workflow_id w) w'"
  shows "Inv w'"
proof -
  let ?n = "next_workflow_id w"
  from inv have d: "distinct (map job_id (jobs w))"
    and ids: "list_all (\<lambda>j. job_id j < next_job_id w) (jobs w)"
    and so: "\<And>wid. sorted_wrt (<) (map priority (jobs_of wid w))"
    and phs: "\<And>wid. phase wid w"
    and ab: "\<And>wid. ?n \<le> wid \<Longrightarrow> absent wid w"
    by (simp_all add: Inv_def)
  have "absent ?n w"
    by (simp add: ab)
  then have j0: "jobs_of ?n w = []"
    by (simp add: absent_def)
  have fnew: "filter (\<lambda>j. workflow_id j = wid) new = (if wid = ?n then new else [])" for wid
    using new_wf by (auto simp: list_all_iff filter_id_conv filter_empty_conv)
  have jo: "jobs_of wid w' = (if wid = ?n then new else jobs_of wid w)" for wid
    using j0 by (simp add: jobs_of_def jb fnew)
  show ?thesis
    unfolding Inv_def
  proof (intro conjI allI impI)
    have "set (map job_id (jobs w)) \<inter> set (map job_id new) = {}"
      using ids unfolding ids_below_iff new_ids by auto
    moreover have "distinct (map job_id new)"
      unfolding new_ids by (simp add: distinct_map inj_on_def)
    ultimately show "distinct (map job_id (jobs w'))"
      using d by (simp add: jb)
    show "list_all (\<lambda>j. job_id j < next_job_id w') (jobs w')"
      using ids nj unfolding ids_below_iff jb by (auto simp: new_ids)
    show "sorted_wrt (<) (map priority (jobs_of wid w'))" for wid
      using so [of wid] pr by (simp add: jo)
    show "phase wid w'" for wid
    proof (cases "wid = ?n")
      case True
      with ph show ?thesis by simp
    next
      case False
      have "phase wid w' = phase wid w"
        by (rule phase_cong) (simp_all add: jo ms ws False)
      with phs show ?thesis by simp
    qed
    show "absent wid w'" if "next_workflow_id w' \<le> wid" for wid
    proof -
      from that nw have ne: "wid \<noteq> ?n" and "?n \<le> wid"
        by simp_all
      have "absent wid w' = absent wid w"
        by (rule phase_cong) (simp_all add: jo ms ws ne)
      with ab [OF \<open>?n \<le> wid\<close>] show ?thesis by simp
    qed
  qed
qed

lemma update_none:
  assumes "selectWorkflow wid w = []"
  shows "map (\<lambda>x. if wf_id x = wid then f x else x) (workflows w) = workflows w"
  using assms by (intro map_idI) (auto simp: selectWorkflow_def filter_empty_conv)

lemma plan_jobs_cong:
  "next_job_id w' = next_job_id w \<Longrightarrow> clock w' = clock w \<Longrightarrow>
   plan_jobs wid steps i w' = plan_jobs wid steps i w"
  by (simp add: plan_jobs_def)

lemma plan_jobs_update [simp]:
  "plan_jobs wid steps i (w\<lparr>workflows := ws\<rparr>) = plan_jobs wid steps i w"
  "plan_jobs wid steps i (w\<lparr>next_workflow_id := n\<rparr>) = plan_jobs wid steps i w"
  "plan_jobs wid steps i (w\<lparr>jobQueue := q\<rparr>) = plan_jobs wid steps i w"
  "plan_jobs wid steps i (w\<lparr>jobs := js\<rparr>) = plan_jobs wid steps i w"
  by (simp_all add: plan_jobs_def)

lemma createWorkflow_refused:
  assumes t: "t = (case workflowType of None \<Rightarrow> ''full_listing'' | Some t \<Rightarrow> t)"
    and no: "refused t ''pending'' pid = Some e"
  shows "createWorkflow pid workflowType w = (Inl e, w)"
  using no unfolding t by (simp add: createWorkflow_def insertWorkflow_def)

lemma createWorkflow_StepArray:
  assumes sel: "selectWorkflow (next_workflow_id w) w = []"
    and nj: "jobs_of (next_workflow_id w) w = []"
    and t: "t = (case workflowType of None \<Rightarrow> ''full_listing'' | Some t \<Rightarrow> t)"
    and fit: "refused t ''pending'' pid = None"
    and plan: "getExecutionPlan t = StepArray steps"
  shows "createWorkflow pid workflowType w = (Inr (next_workflow_id w), created_world pid t steps w)"
proof -
  let ?n = "next_workflow_id w"
  let ?row = "new_workflow ?n t ''pending'' pid (clock w)"
  let ?w1 = "w\<lparr>workflows := workflows w @ [?row], next_workflow_id := Suc ?n\<rparr>"
  let ?w2 = "?w1\<lparr>jobs := jobs ?w1 @ plan_jobs ?n steps 0 ?w1,
                 next_job_id := next_job_id ?w1 + length steps\<rparr>"
  let ?w3 = "markQueued ?n ?w2"
  have ins: "insertWorkflow t ''pending'' pid [(''type'', t)] w = (Inr ?n, ?w1)"
    by (simp add: insertWorkflow_def new_workflow_def fit)
  have s1: "selectWorkflow ?n ?w1 = ?row # []"
    using sel by (simp add: selectWorkflow_def new_workflow_def)
  have q: "queueWorkflow ?n ?w1 = processNextJob ?n ?w3"
    by (rule queueWorkflow_StepArray [OF s1]) (simp add: new_workflow_def plan)
  have pj: "plan_jobs ?n steps 0 ?w1 = plan_jobs ?n steps 0 w"
    by (rule plan_jobs_cong) simp_all
  from getExecutionPlan_StepArray [OF plan] obtain p ps where pps: "plan_jobs ?n steps 0 w = p # ps"
    using plan_jobs_props(1) [of ?n steps w] by (cases "plan_jobs ?n steps 0 w") auto
  have j3: "jobs_of ?n ?w3 = [] @ p # ps"
    using nj by (simp add: jobs_of_def pj filter_plan_jobs pps [symmetric])
  have "all_status ''pending'' (p # ps)"
    using plan_jobs_props(6) [of ?n steps w] by (simp only: pps)
  moreover have "sorted_wrt (<) (map priority (jobs_of ?n ?w3))"
    unfolding j3 using plan_jobs_props(3) [of ?n steps w] sorted_plan_priorities [of 0 "length steps"]
    by (simp only: pps append_Nil)
  ultimately have "processNextJob ?n ?w3 = (Inr (), ?w3\<lparr>jobQueue := jobQueue ?w3 @ [msg_of p]\<rparr>)"
    by (intro processNextJob_first [OF j3]) simp_all
  also have "?w3\<lparr>jobQueue := jobQueue ?w3 @ [msg_of p]\<rparr> = created_world pid t steps w"
    using update_none [OF sel]
    by (simp add: created_world_def markQueued_def updateWorkflow_def pps new_workflow_def)
  finally show ?thesis
    using t by (simp add: createWorkflow_def ins [unfolded t] q [unfolded t])
qed

lemma new_workflow_sel [simp]:
  "wf_id (new_workflow wid t st pid now) = wid"
  "wf_name (new_workflow wid t st pid now) = t"
  "wf_status (new_workflow wid t st pid now) = st"
  "wf_completed_at (new_workflow wid t st pid now) = None"
  by (simp_all add: new_workflow_def)

lemma createWorkflow_no_steps:
  assumes sel: "selectWorkflow (next_workflow_id w) w = []"
    and nj: "jobs_of (next_workflow_id w) w = []"
    and t: "t = (case workflowType of None \<Rightarrow> ''full_listing'' | Some t \<Rightarrow> t)"
    and fit: "refused t ''pending'' pid = None"
    and plan: "getExecutionPlan t = ObjectPrototype \<or> getExecutionPlan t = BuiltinFunction f 0"
  shows "createWorkflow pid workflowType w =
         (Inr (next_workflow_id w),
          w\<lparr>workflows := workflows w @
               [(new_workflow (next_workflow_id w) t ''completed'' pid (clock w))
                  \<lparr>wf_completed_at := Some (clock w)\<rparr>],
            next_workflow_id := Suc (next_workflow_id w),
            activeWorkflows := removeAll (next_workflow_id w) (activeWorkflows w)\<rparr>)"
proof -
  let ?n = "next_workflow_id w"
  let ?row = "new_workflow ?n t ''pending'' pid (clock w)"
  let ?w1 = "w\<lparr>workflows := workflows w @ [?row], next_workflow_id := Suc ?n\<rparr>"
  have ins: "insertWorkflow t ''pending'' pid [(''type'', t)] w = (Inr ?n, ?w1)"
    by (simp add: insertWorkflow_def new_workflow_def fit)
  have s1: "selectWorkflow ?n ?w1 = ?row # []"
    using sel by (simp add: selectWorkflow_def new_workflow_def)
  have q: "queueWorkflow ?n ?w1 = completeWorkflow ?n (markQueued ?n ?w1)"
    by (rule queueWorkflow_no_steps [OF s1, where f = f])
       (use plan nj in \<open>simp_all add: new_workflow_def jobs_of_def\<close>)
  have "createWorkflow pid workflowType w = (Inr ?n, snd (completeWorkflow ?n (markQueued ?n ?w1)))"
    using t by (simp add: createWorkflow_def Let_def ins [unfolded t] q [unfolded t] completeWorkflow_def)
  also have "snd (completeWorkflow ?n (markQueued ?n ?w1)) =
      w\<lparr>workflows := workflows w @
               [(new_workflow ?n t ''completed'' pid (clock w))\<lparr>wf_completed_at := Some (clock w)\<rparr>],
            next_workflow_id := Suc ?n, activeWorkflows := removeAll ?n (activeWorkflows w)\<rparr>"
    using update_none [OF sel]
    by (simp add: completeWorkflow_def markQueued_def updateWorkflow_def new_workflow_def)
  finally show ?thesis .
qed

lemma createWorkflow_rejected:
  assumes sel: "selectWorkflow (next_workflow_id w) w = []"
    and t: "t = (case workflowType of None \<Rightarrow> ''full_listing'' | Some t \<Rightarrow> t)"
    and fit: "refused t ''pending'' pid = None"
    and plan: "getExecutionPlan t = BuiltinFunction f n" and n: "0 < n"
  shows "createWorkflow pid workflowType w =
         (Inl (NotNullViolation ''node_name''),
          w\<lparr>workflows := workflows w @ [new_workflow (next_workflow_id w) t ''pending'' pid (clock w)],
            next_workflow_id := Suc (next_workflow_id w),
            next_job_id := Suc (next_job_id w)\<rparr>)"
proof -
  let ?n = "next_workflow_id w"
  let ?row = "new_workflow ?n t ''pending'' pid (clock w)"
  let ?w1 = "w\<lparr>workflows := workflows w @ [?row], next_workflow_id := Suc ?n\<rparr>"
  have ins: "insertWorkflow t ''pending'' pid [(''type'', t)] w = (Inr ?n, ?w1)"
    by (simp add: insertWorkflow_def new_workflow_def fit)
  have s1: "selectWorkflow ?n ?w1 = ?row # []"
    using sel by (simp add: selectWorkflow_def new_workflow_def)
  have q: "queueWorkflow ?n ?w1 =
      (Inl (NotNullViolation ''node_name''), ?w1\<lparr>next_job_id := Suc (next_job_id ?w1)\<rparr>)"
    by (rule queueWorkflow_rejected [OF s1 _ n, where f = f]) (simp add: new_workflow_def plan)
  show ?thesis
    using t by (simp add: createWorkflow_def Let_def ins [unfolded t] q [unfolded t])
qed

lemma selectWorkflow_append_new:
  assumes "workflows w' = workflows w @ [x]" and "wf_id x = n"
  shows "selectWorkflow wid w' = selectWorkflow wid w @ (if wid = n then [x] else [])"
  using assms by (auto simp: selectWorkflow_def)

lemma Inv_createWorkflow:
  assumes inv: "Inv w"
  shows "Inv (snd (createWorkflow pid workflowType w))"
proof (cases "refused (case workflowType of None \<Rightarrow> ''full_listing'' | Some t \<Rightarrow> t) ''pending'' pid")
  case (Some e)
  from createWorkflow_refused [OF refl this] inv show ?thesis
    by simp
next
  case None
  let ?n = "next_workflow_id w"
  define t where "t = (case workflowType of None \<Rightarrow> ''full_listing'' | Some t \<Rightarrow> t)"
  have fit: "refused t ''pending'' pid = None"
    using None by (simp add: t_def)
  from inv have "absent ?n w"
    by (simp add: Inv_def)
  then have sel: "selectWorkflow ?n w = []" and nj: "jobs_of ?n w = []" and nm: "msgs_of ?n w = []"
    by (simp_all add: absent_def)
  show ?thesis
  proof (cases "getExecutionPlan t")
    case Undefined
    then show ?thesis
      using getExecutionPlan_defined [of t] by simp
  next
    case (StepArray steps)
    let ?new = "plan_jobs ?n steps 0 w"
    let ?w' = "created_world pid t steps w"
    from getExecutionPlan_StepArray [OF StepArray] obtain p ps where pps: "?new = p # ps"
      using plan_jobs_props(1) [of ?n steps w] by (cases ?new) auto
    have wp: "workflow_id p = ?n"
      using plan_jobs_props(5) [of ?n steps w] by (simp add: pps)
    have w': "snd (createWorkflow pid workflowType w) = ?w'"
      by (simp add: createWorkflow_StepArray [OF sel nj t_def fit StepArray])
    have sw: "selectWorkflow wid ?w' =
        selectWorkflow wid w @ (if wid = ?n then [new_workflow ?n t ''queued'' pid (clock w)] else [])" for wid
      by (rule selectWorkflow_append_new) (simp_all add: created_world_def)
    have "Inv ?w'"
    proof (rule Inv_extend [OF inv, where new = ?new])
      show "next_workflow_id ?w' = Suc ?n"
        by (simp add: created_world_def)
      show "jobs ?w' = jobs w @ ?new"
        by (simp add: created_world_def)
      show "list_all (\<lambda>j. workflow_id j = ?n) ?new"
        by (rule plan_jobs_props)
      show "map job_id ?new = map (\<lambda>k. next_job_id w + k) [0..<length ?new]"
        by (simp add: plan_jobs_props)
      show "next_job_id w + length ?new \<le> next_job_id ?w'"
        by (simp add: plan_jobs_props created_world_def)
      show "sorted_wrt (<) (map priority ?new)"
        by (simp only: plan_jobs_props sorted_plan_priorities)
      show "msgs_of wid ?w' = msgs_of wid w" if "wid \<noteq> ?n" for wid
        using that wp by (simp add: msgs_of_def created_world_def pps msg_of_def)
      show "selectWorkflow wid ?w' = selectWorkflow wid w" if "wid \<noteq> ?n" for wid
        using that by (simp add: sw)
      have "jobs_of ?n ?w' = [] @ p # ps"
        using nj by (simp add: jobs_of_def created_world_def filter_plan_jobs pps [symmetric])
      moreover have "all_status ''pending'' (p # ps)"
        using plan_jobs_props(6) [of ?n steps w] by (simp only: pps)
      moreover have "msgs_of ?n ?w' = [msg_of p]"
        using nm wp by (simp add: msgs_of_def created_world_def pps msg_of_def)
      moreover have "map wf_status (selectWorkflow ?n ?w') = [''queued'']"
        by (simp add: sw sel)
      ultimately have "in_progress ?n ?w'"
        unfolding in_progress_def by (intro conjI exI [of _ "[]"] exI [of _ p] exI [of _ ps]) simp_all
      then show "phase ?n ?w'"
        by (simp add: phase_def)
    qed
    with w' show ?thesis by simp
  next
    case ObjectPrototype
    let ?w' = "w\<lparr>workflows := workflows w @
               [(new_workflow ?n t ''completed'' pid (clock w))\<lparr>wf_completed_at := Some (clock w)\<rparr>],
            next_workflow_id := Suc ?n, activeWorkflows := removeAll ?n (activeWorkflows w)\<rparr>"
    have w': "snd (createWorkflow pid workflowType w) = ?w'"
      using createWorkflow_no_steps [OF sel nj t_def fit, of undefined] ObjectPrototype by simp
    have sw: "selectWorkflow wid ?w' = selectWorkflow wid w @
        (if wid = ?n then [(new_workflow ?n t ''completed'' pid (clock w))\<lparr>wf_completed_at := Some (clock w)\<rparr>] else [])" for wid
      by (rule selectWorkflow_append_new) simp_all
    have "Inv ?w'"
    proof (rule Inv_extend [OF inv, where new = "[]"])
      show "phase ?n ?w'"
        using nj nm sel by (simp add: phase_def finished_def sw jobs_of_def msgs_of_def)
    qed (simp_all add: sw msgs_of_def)
    with w' show ?thesis by simp
  next
    case (BuiltinFunction f n)
    show ?thesis
    proof (cases "n = 0")
      case True
      let ?w' = "w\<lparr>workflows := workflows w @
               [(new_workflow ?n t ''completed'' pid (clock w))\<lparr>wf_completed_at := Some (clock w)\<rparr>],
            next_workflow_id := Suc ?n, activeWorkflows := removeAll ?n (activeWorkflows w)\<rparr>"
      have w': "snd (createWorkflow pid workflowType w) = ?w'"
        using createWorkflow_no_steps [OF sel nj t_def fit, of f] BuiltinFunction True by simp
      have sw: "selectWorkflow wid ?w' = selectWorkflow wid w @
        (if wid = ?n then [(new_workflow ?n t ''completed'' pid (clock w))\<lparr>wf_completed_at := Some (clock w)\<rparr>] else [])" for wid
        by (rule selectWorkflow_append_new) simp_all
      have "Inv ?w'"
      proof (rule Inv_extend [OF inv, where new = "[]"])
        show "phase ?n ?w'"
          using nj nm sel by (simp add: phase_def finished_def sw jobs_of_def msgs_of_def)
      qed (simp_all add: sw msgs_of_def)
      with w' show ?thesis by simp
    next
      case False
      let ?w' = "w\<lparr>workflows := workflows w @ [new_workflow ?n t ''pending'' pid (clock w)],
            next_workflow_id := Suc ?n, next_job_id := Suc (next_job_id w)\<rparr>"
      have w': "snd (createWorkflow pid workflowType w) = ?w'"
        using createWorkflow_rejected [OF sel t_def fit BuiltinFunction] False by simp
      have sw: "selectWorkflow wid ?w' = selectWorkflow wid w @
        (if wid = ?n then [new_workflow ?n t ''pending'' pid (clock w)] else [])" for wid
        by (rule selectWorkflow_append_new) simp_all
      have "Inv ?w'"
      proof (rule Inv_extend [OF inv, where new = "[]"])
        show "phase ?n ?w'"
          using nj nm sel by (simp add: phase_def rejected_def sw jobs_of_def msgs_of_def)
      qed (simp_all add: sw msgs_of_def)
      with w' show ?thesis by simp
    qed
  qed
qed

lemma Inv_initial: "Inv initial_world"
  by (simp add: Inv_def initial_world_def phase_def absent_def jobs_of_def msgs_of_def
      selectWorkflow_def)

lemma Inv_tick: "Inv w \<Longrightarrow> Inv (w\<lparr>clock := c\<rparr>)"
  by (simp add: Inv_def phase_def in_progress_def finished_def halted_def rejected_def
      absent_def jobs_of_def msgs_of_def selectWorkflow_def)

lemma Inv_step: "step exec w w' \<Longrightarrow> Inv w \<Longrightarrow> Inv w'"
  by (induction rule: step.induct) (simp_all add: Inv_createWorkflow Inv_deliver Inv_tick)

lemma Inv_reachable: "reachable exec w \<Longrightarrow> Inv w"
  unfolding reachable_def
  by (induction rule: rtranclp_induct) (simp_all add: Inv_initial Inv_step)

section \<open>A workflow with no waiting message stays as it is\<close>

lemma createWorkflow_effect:
  fixes pid workflowType w
  defines "w' \<equiv> snd (createWorkflow pid workflowType w)"
  assumes ab: "absent (next_workflow_id w) w"
  shows "\<exists>new extra rows.
     jobs w' = jobs w @ new \<and> list_all (\<lambda>j. workflow_id j = next_workflow_id w) new \<and>
     jobQueue w' = jobQueue w @ extra \<and> list_all (\<lambda>m. workflowId m = next_workflow_id w) extra \<and>
     workflows w' = workflows w @ rows \<and> list_all (\<lambda>x. wf_id x = next_workflow_id w) rows"
proof (cases "refused (case workflowType of None \<Rightarrow> ''full_listing'' | Some t \<Rightarrow> t) ''pending'' pid")
  case (Some e)
  from createWorkflow_refused [OF refl this, of w] show ?thesis
    by (intro exI [of _ "[]"]) (simp add: w'_def)
next
  case None
  let ?n = "next_workflow_id w"
  define t where "t = (case workflowType of None \<Rightarrow> ''full_listing'' | Some t \<Rightarrow> t)"
  have fit: "refused t ''pending'' pid = None"
    using None by (simp add: t_def)
  from ab have sel: "selectWorkflow ?n w = []" and nj: "jobs_of ?n w = []"
    by (simp_all add: absent_def)
  show ?thesis
  proof (cases "getExecutionPlan t")
    case Undefined
    then show ?thesis
      using getExecutionPlan_defined [of t] by simp
  next
    case (StepArray steps)
    have "w' = created_world pid t steps w"
      by (simp add: w'_def createWorkflow_StepArray [OF sel nj t_def fit StepArray])
    moreover have "list_all (\<lambda>m. workflowId m = ?n) (map msg_of (take 1 (plan_jobs ?n steps 0 w)))"
      using plan_jobs_props(5) [of ?n steps w]
      by (auto simp: list_all_iff msg_of_def dest: in_set_takeD)
    ultimately show ?thesis
      using plan_jobs_props(5) [of ?n steps w]
      by (intro exI [of _ "plan_jobs ?n steps 0 w"]
          exI [of _ "map msg_of (take 1 (plan_jobs ?n steps 0 w))"]
          exI [of _ "[new_workflow ?n t ''queued'' pid (clock w)]"])
         (simp add: created_world_def)
  next
    case ObjectPrototype
    then show ?thesis
      using createWorkflow_no_steps [OF sel nj t_def fit, of undefined]
      by (intro exI [of _ "[]"] exI [of _ "[(new_workflow ?n t ''completed'' pid (clock w))
            \<lparr>wf_completed_at := Some (clock w)\<rparr>]"]) (simp add: w'_def)
  next
    case (BuiltinFunction f n)
    show ?thesis
    proof (cases "n = 0")
      case True
      then show ?thesis
        using createWorkflow_no_steps [OF sel nj t_def fit, of f] BuiltinFunction
        by (intro exI [of _ "[]"] exI [of _ "[(new_workflow ?n t ''completed'' pid (clock w))
            \<lparr>wf_completed_at := Some (clock w)\<rparr>]"]) (simp add: w'_def)
    next
      case False
      then show ?thesis
        using createWorkflow_rejected [OF sel t_def fit BuiltinFunction]
        by (intro exI [of _ "[]"] exI [of _ "[new_workflow ?n t ''pending'' pid (clock w)]"])
           (simp add: w'_def)
    qed
  qed
qed

lemma createWorkflow_other:
  assumes inv: "Inv w" and ne: "wid \<noteq> next_workflow_id w"
  shows "same_view wid w (snd (createWorkflow pid workflowType w))"
proof -
  from inv have "absent (next_workflow_id w) w"
    by (simp add: Inv_def)
  from createWorkflow_effect [OF this, of pid workflowType] ne show ?thesis
    by (auto simp: same_view_def jobs_of_def msgs_of_def selectWorkflow_def list_all_iff
        filter_empty_conv)
qed

lemma deliver_other:
  assumes inv: "Inv w" and nm: "msgs_of wid w = []"
  shows "same_view wid w (deliver exec w)"
proof (cases "jobQueue w")
  case Nil
  then show ?thesis
    by (simp add: deliver_def same_view_def)
next
  case (Cons m rest)
  from nm have ne: "wid \<noteq> workflowId m"
    by (auto simp: msgs_of_def Cons)
  let ?v = "workflowId m"
  from phase_head [OF inv Cons] obtain ds p ps where
    js: "jobs_of ?v w = ds @ p # ps" and cd: "all_status ''completed'' ds"
    and pp: "all_status ''pending'' (p # ps)" and m: "m = msg_of p"
    by blast
  from inv have d: "distinct (map job_id (jobs w))"
    and so: "\<And>wid. sorted_wrt (<) (map priority (jobs_of wid w))"
    by (simp_all add: Inv_def)
  from pp have pps: "all_status ''pending'' ps"
    by simp
  have rest_o: "filter (\<lambda>x. workflowId x = wid) rest = msgs_of wid w"
    using ne by (auto simp: msgs_of_def Cons)
  obtain r now where ex: "exec (nodeName m) ?v (clock w) = (r, now)"
    by (cases "exec (nodeName m) ?v (clock w)")
  show ?thesis
  proof (cases r)
    case (Inl e)
    note F = deliver_failure [where exec = exec, OF d Cons js m ex [unfolded Inl]]
    show ?thesis
      using ne by (simp add: same_view_def F msgs_of_def rest_o [unfolded msgs_of_def])
  next
    case (Inr res)
    note S = deliver_success [where exec = exec, OF d Cons js m so cd pps ex [unfolded Inr]]
    have vn: "workflowId (msg_of n) \<noteq> wid" if "n \<in> set ps" for n
      using that jobs_of_member [of n ?v w] js ne by (simp add: msg_of_def)
    have "msgs_of wid (deliver exec w) = msgs_of wid w"
      using vn by (cases ps) (simp_all add: msgs_of_def S rest_o [unfolded msgs_of_def])
    then show ?thesis
      using ne by (simp add: same_view_def S)
  qed
qed

lemma tick_view: "same_view wid w (w\<lparr>clock := c\<rparr>)"
  by (simp add: same_view_def jobs_of_def msgs_of_def selectWorkflow_def)

lemma step_stable:
  assumes inv: "Inv w" and st: "step exec w w'"
    and nm: "msgs_of wid w = []" and ex: "selectWorkflow wid w \<noteq> []"
  shows "same_view wid w w'"
  using st
proof cases
  case (create propertyId workflowType)
  have "wid \<noteq> next_workflow_id w"
  proof
    assume "wid = next_workflow_id w"
    with inv have "absent wid w" by (simp add: Inv_def)
    with ex show False by (simp add: absent_def)
  qed
  with create inv show ?thesis
    by (simp add: createWorkflow_other)
next
  case deliver
  with inv nm show ?thesis
    by (simp add: deliver_other)
next
  case (tick d)
  then show ?thesis
    by (simp add: tick_view)
qed


section \<open>Evaluating concrete runs\<close>

lemmas run_defs = createWorkflow_def insertWorkflow_def refused_def has_nul_def queueWorkflow_def
  queryWorkflow_def int4_max_def selectWorkflow_def
  getExecutionPlan_def plans_get_def plans_def object_prototype_def queueJobs.simps insertJob_def
  markQueued_def updateWorkflow_def processNextJob_def selectNextPending_def completeWorkflow_def
  initial_world_def deliver_def processJob_with_def processJob_unit_def throwing_errors_def
  processJob_catch_def markRunning_def
  markCompleted_def markFailed_def markWorkflowFailed_def updateJob_def executeNode_def Let_def

lemma reachable_initial: "reachable exec initial_world"
  by (simp add: reachable_def)

lemma reachable_step: "reachable exec w \<Longrightarrow> step exec w w' \<Longrightarrow> reachable exec w'"
  unfolding reachable_def by (rule rtranclp.rtrancl_into_rtrancl)

lemma reachable_test_queued: "reachable exec test_queued"
  unfolding test_queued_def by (rule reachable_step [OF reachable_initial step.create])

lemma reachable_test_done: "reachable exec (deliver exec test_queued)"
  by (rule reachable_step [OF reachable_test_queued step.deliver])

lemma reachable_listing_started: "reachable exec (listing_started exec)"
  unfolding listing_started_def
  by (rule reachable_step [OF reachable_step [OF reachable_initial step.create] step.deliver])

lemma test_queued_eq:
  "test_queued =
     \<lparr>workflows = [\<lparr>wf_id = 1, wf_name = ''test'', wf_status = ''queued'',
                     property_id = Some ''P1'', wf_created_at = 0, updated_at = 0,
                     wf_completed_at = None, metadata = [(''type'', ''test'')]\<rparr>],
      jobs = [\<lparr>job_id = 1, workflow_id = 1, node_name = ''test_node'',
                job_status = ''pending'', priority = 1, created_at = 0, started_at = None,
                completed_at = None, result = None, job_error = None\<rparr>],
      next_workflow_id = 2, next_job_id = 2,
      jobQueue = [\<lparr>jobId = 1, workflowId = 1, nodeName = ''test_node''\<rparr>],
      activeWorkflows = [], clock = 0\<rparr>"
  by (simp add: test_queued_def run_defs)

lemma test_done_eq:
  "deliver executeNode test_queued =
     \<lparr>workflows = [\<lparr>wf_id = 1, wf_name = ''test'', wf_status = ''completed'',
                     property_id = Some ''P1'', wf_created_at = 0, updated_at = 1000,
                     wf_completed_at = Some 1000, metadata = [(''type'', ''test'')]\<rparr>],
      jobs = [\<lparr>job_id = 1, workflow_id = 1, node_name = ''test_node'',
                job_status = ''completed'', priority = 1, created_at = 0,
                started_at = Some 0, completed_at = Some 1000,
                result = Some \<lparr>res_nodeName = ''test_node'', res_status = ''success'',
                               res_timestamp = 1000\<rparr>,
                job_error = None\<rparr>],
      next_workflow_id = 2, next_job_id = 2, jobQueue = [],
      activeWorkflows = [], clock = 1000\<rparr>"
  by (simp add: test_queued_eq run_defs)

lemma listing_started_queue:
  "jobQueue (listing_started flaky_unit) =
     [\<lparr>jobId = 2, workflowId = 1, nodeName = ''property_photos_collector''\<rparr>]"
  "clock (listing_started flaky_unit) = 1000"
  by (simp_all add: listing_started_def flaky_unit_def run_defs)

lemma reachable_mixed_world: "reachable exec mixed_world"
  unfolding mixed_world_def
  by (rule reachable_step [OF reachable_step [OF reachable_initial step.create] step.create])

lemma mixed_world_eq:
  "mixed_world =
     \<lparr>workflows = [\<lparr>wf_id = 1, wf_name = ''constructor'', wf_status = ''pending'',
                     property_id = None, wf_created_at = 0, updated_at = 0,
                     wf_completed_at = None, metadata = [(''type'', ''constructor'')]\<rparr>,
                   \<lparr>wf_id = 2, wf_name = ''test'', wf_status = ''queued'',
                     property_id = None, wf_created_at = 0, updated_at = 0,
                     wf_completed_at = None, metadata = [(''type'', ''test'')]\<rparr>],
      jobs = [\<lparr>job_id = 2, workflow_id = 2, node_name = ''test_node'',
                job_status = ''pending'', priority = 1, created_at = 0, started_at = None,
                completed_at = None, result = None, job_error = None\<rparr>],
      next_workflow_id = 3, next_job_id = 3,
      jobQueue = [\<lparr>jobId = 2, workflowId = 2, nodeName = ''test_node''\<rparr>],
      activeWorkflows = [], clock = 0\<rparr>"
  by (simp add: mixed_world_def run_defs)

section \<open>The statuses an operation writes to workflow rows\<close>

lemma status_writes_same: "workflows w' = workflows w \<Longrightarrow> status_writes S w w'"
  by (simp add: status_writes_def list_all2_same)

lemma status_writes_trans:
  assumes "status_writes S w w1" and "status_writes S w1 w2"
  shows "status_writes S w w2"
  using assms unfolding status_writes_def
  by (rule list_all2_trans [rotated]) auto

lemma status_writes_mono: "status_writes S w w' \<Longrightarrow> S \<subseteq> T \<Longrightarrow> status_writes T w w'"
  unfolding status_writes_def by (erule list_all2_mono) auto

lemma status_writes_cong:
  "workflows v = workflows w \<Longrightarrow> workflows v' = workflows w' \<Longrightarrow>
   status_writes S v v' = status_writes S w w'"
  by (simp add: status_writes_def)

lemma status_writes_updateWorkflow:
  assumes "\<And>x. wf_id (f x) = wf_id x" "\<And>x. wf_name (f x) = wf_name x"
    "\<And>x. wf_status (f x) \<in> S"
  shows "status_writes S w (updateWorkflow wid f w)"
  by (simp add: status_writes_def updateWorkflow_def list_all2_map2 list_all2_same assms)

lemma status_writes_completeWorkflow: "status_writes {''completed''} w (snd (completeWorkflow wid w))"
proof -
  have "status_writes {''completed''} w (updateWorkflow wid
      (\<lambda>x. x\<lparr>wf_status := ''completed'', wf_completed_at := Some (clock w),
              updated_at := clock w\<rparr>) w)"
    by (rule status_writes_updateWorkflow) simp_all
  then show ?thesis
    by (simp add: status_writes_def completeWorkflow_def)
qed

lemma status_writes_processNextJob: "status_writes {''completed''} w (snd (processNextJob wid w))"
  by (cases "selectNextPending wid w")
     (simp_all add: processNextJob_def status_writes_completeWorkflow status_writes_same)

lemma status_writes_markQueued: "status_writes {''queued''} w (markQueued wid w)"
  unfolding markQueued_def by (rule status_writes_updateWorkflow) simp_all

lemma status_writes_markWorkflowFailed: "status_writes {''failed''} w (markWorkflowFailed wid w)"
  unfolding markWorkflowFailed_def by (rule status_writes_updateWorkflow) simp_all

lemma workflows_queueJobs: "workflows (snd (queueJobs wid executionPlan i w)) = workflows w"
proof (induction wid executionPlan i w rule: queueJobs.induct)
  case (1 wid executionPlan i w)
  show ?case
  proof (cases "case plan_length executionPlan of None \<Rightarrow> False | Some n \<Rightarrow> i < n")
    case True
    obtain r w' where ins: "insertJob wid (plan_step executionPlan i) ''pending'' (int i + 1) w = (r, w')"
      by (cases "insertJob wid (plan_step executionPlan i) ''pending'' (int i + 1) w")
    then have w': "workflows w' = workflows w"
      by (auto simp: insertJob_def split: option.splits)
    show ?thesis
    proof (cases r)
      case (Inl e)
      with True ins w' show ?thesis
        by (subst queueJobs.simps) simp
    next
      case (Inr u)
      with "1.IH" [OF True ins [symmetric, unfolded Inr]] True ins w' show ?thesis
        by (subst queueJobs.simps) simp
    qed
  next
    case False
    then show ?thesis
      by (subst queueJobs.simps) simp
  qed
qed

lemma status_writes_queueWorkflow:
  "status_writes {''queued'', ''completed''} w (snd (queueWorkflow wid w))"
proof (cases "selectWorkflow wid w")
  case Nil
  then show ?thesis
    by (simp add: queueWorkflow_no_row status_writes_same)
next
  case (Cons workflow others)
  note qw = queueWorkflow_def queryWorkflow_rows [OF Cons]
  let ?plan = "getExecutionPlan (wf_name workflow)"
  obtain r w1 where qj: "queueJobs wid ?plan 0 w = (r, w1)"
    by (cases "queueJobs wid ?plan 0 w")
  have w1: "workflows w1 = workflows w"
    using workflows_queueJobs [of wid ?plan 0 w] qj by simp
  show ?thesis
  proof (cases r)
    case (Inl e)
    with Cons qj w1 show ?thesis
      by (simp add: qw status_writes_same getExecutionPlan_defined)
  next
    case (Inr u)
    have "status_writes {''queued'', ''completed''} w1 (markQueued wid w1)"
      by (rule status_writes_mono [OF status_writes_markQueued]) simp
    moreover have "status_writes {''queued'', ''completed''} (markQueued wid w1)
        (snd (processNextJob wid (markQueued wid w1)))"
      by (rule status_writes_mono [OF status_writes_processNextJob]) simp
    ultimately have "status_writes {''queued'', ''completed''} w1
        (snd (processNextJob wid (markQueued wid w1)))"
      by (rule status_writes_trans)
    then have "status_writes {''queued'', ''completed''} w
        (snd (processNextJob wid (markQueued wid w1)))"
      using w1 by (simp add: status_writes_def)
    with Cons qj Inr show ?thesis
      by (simp add: qw getExecutionPlan_defined)
  qed
qed

lemma status_writes_processJob_with:
  "status_writes {''completed'', ''failed''} w (snd (processJob_with exec bullJob w))"
proof -
  let ?w1 = "markRunning (jobId bullJob) w"
  obtain r now where ex: "exec (nodeName bullJob) (workflowId bullJob) (clock ?w1) = (r, now)"
    by (cases "exec (nodeName bullJob) (workflowId bullJob) (clock ?w1)")
  show ?thesis
  proof (cases r)
    case (Inl e)
    let ?w2 = "markFailed (jobId bullJob) (Some (message e)) (?w1\<lparr>clock := now\<rparr>)"
    have "status_writes {''completed'', ''failed''} ?w2 (markWorkflowFailed (workflowId bullJob) ?w2)"
      by (rule status_writes_mono [OF status_writes_markWorkflowFailed]) simp
    then have "status_writes {''completed'', ''failed''} w (markWorkflowFailed (workflowId bullJob) ?w2)"
      by (simp add: status_writes_def)
    with ex Inl show ?thesis
      by (simp add: processJob_with_failure [of exec bullJob w e now])
  next
    case (Inr res)
    let ?w3 = "markCompleted (jobId bullJob) res (?w1\<lparr>clock := now\<rparr>)"
    have "status_writes {''completed'', ''failed''} ?w3 (snd (processNextJob (workflowId bullJob) ?w3))"
      by (rule status_writes_mono [OF status_writes_processNextJob]) simp
    then have "status_writes {''completed'', ''failed''} w (snd (processNextJob (workflowId bullJob) ?w3))"
      by (simp add: status_writes_def)
    moreover have "processJob_with exec bullJob w = (Inr res, snd (processNextJob (workflowId bullJob) ?w3))"
      using ex Inr by (simp add: processJob_with_success [of exec bullJob w res now])
    ultimately show ?thesis
      by simp
  qed
qed

lemma status_writes_select:
  assumes "status_writes S w w'"
  shows "list_all2 (\<lambda>a b. wf_id b = wf_id a \<and> wf_name b = wf_name a \<and>
                   (wf_status b = wf_status a \<or> wf_status b \<in> S))
           (selectWorkflow wid w) (selectWorkflow wid w')"
proof -
  have "list_all2 R (filter (\<lambda>x. wf_id x = wid) xs) (filter (\<lambda>x. wf_id x = wid) ys)"
    if "list_all2 R xs ys" "\<And>a b. R a b \<Longrightarrow> wf_id b = wf_id a" for R xs ys
    using that by (induction rule: list_all2_induct) auto
  from this [OF assms [unfolded status_writes_def]] show ?thesis
    by (simp add: selectWorkflow_def)
qed

section \<open>The claims\<close>

subsection \<open>Sequencing\<close>

lemma in_order_shape:
  assumes so: "sorted_wrt (<) (map priority (ds @ c @ ps))"
    and td: "list_all terminal ds" and c: "length c \<le> 1" and pp: "all_status ''pending'' ps"
    and js: "jobs_of wid w = ds @ c @ ps"
  shows "in_order wid w"
proof -
  have "priority k \<le> priority j \<or> terminal j"
    if k: "k \<in> set (ds @ c @ ps)" "job_status k \<noteq> ''pending''" and j: "j \<in> set (ds @ c @ ps)" for k j
  proof (cases "j \<in> set ds")
    case True
    with td show ?thesis by (simp add: list_all_iff)
  next
    case False
    from k pp have kk: "k \<in> set ds \<or> c = [k]"
      using c by (cases c) (auto simp: all_status_def list_all_iff)
    from False j have jj: "j \<in> set c \<or> j \<in> set ps"
      by auto
    from so have "\<forall>x\<in>set ds. \<forall>y\<in>set (c @ ps). priority x < priority y"
      and "\<forall>x\<in>set c. \<forall>y\<in>set ps. priority x < priority y"
      by (auto simp: sorted_wrt_append)
    with kk jj have "priority k \<le> priority j"
      by (auto simp: less_imp_le)
    then show ?thesis ..
  qed
  then show ?thesis
    unfolding in_order_def js list_all_iff by blast
qed

lemma phase_in_order:
  assumes so: "sorted_wrt (<) (map priority (jobs_of wid w))" and ph: "phase wid w"
  shows "in_order wid w \<and> running_jobs wid w = []"
proof -
  have r: "running_jobs wid w = []"
    if "jobs_of wid w = ds @ c @ ps" "list_all terminal ds" "list_all terminal c"
      "all_status ''pending'' ps" for ds c ps
    using that
    by (auto simp: running_jobs_def filter_empty_conv terminal_def all_status_def list_all_iff)
  have ct: "all_status ''completed'' ds \<Longrightarrow> list_all terminal ds" for ds
    by (auto simp: all_status_def terminal_def list_all_iff)
  from ph consider "in_progress wid w" | "finished wid w" | "halted wid w"
    | "rejected wid w" | "absent wid w"
    by (auto simp: phase_def)
  then show ?thesis
  proof cases
    case 1
    then obtain ds p ps where js: "jobs_of wid w = ds @ [] @ (p # ps)"
      and st: "all_status ''completed'' ds" "all_status ''pending'' (p # ps)"
      by (auto simp: in_progress_def)
    from in_order_shape [OF _ ct [OF st(1)] _ st(2) js] so r [OF js ct [OF st(1)] _ st(2)]
    show ?thesis
      by (simp add: js)
  next
    case 2
    then have js: "jobs_of wid w = jobs_of wid w @ [] @ []" and st: "all_status ''completed'' (jobs_of wid w)"
      by (simp_all add: finished_def)
    from in_order_shape [OF _ ct [OF st] _ _ js] so r [OF js ct [OF st]] show ?thesis
      by simp
  next
    case 3
    then obtain ds f ps where js: "jobs_of wid w = ds @ [f] @ ps"
      and st: "all_status ''completed'' ds" "job_status f = ''failed''" "all_status ''pending'' ps"
      by (auto simp: halted_def)
    from st(2) have "list_all terminal [f]"
      by (simp add: terminal_def)
    from in_order_shape [OF _ ct [OF st(1)] _ st(3) js] so r [OF js ct [OF st(1)] this st(3)]
    show ?thesis
      by (simp add: js)
  next
    case 4
    then show ?thesis
      by (simp add: rejected_def in_order_def running_jobs_def)
  next
    case 5
    then show ?thesis
      by (simp add: absent_def in_order_def running_jobs_def)
  qed
qed

lemma Inv_started:
  assumes inv: "Inv w" and q: "jobQueue w = m # rest"
  shows "in_order wid (markRunning (jobId m) (w\<lparr>jobQueue := rest\<rparr>)) \<and>
         map job_id (running_jobs wid (markRunning (jobId m) (w\<lparr>jobQueue := rest\<rparr>))) =
           (if wid = workflowId m then [jobId m] else [])"
proof -
  let ?v = "workflowId m"
  let ?w0 = "w\<lparr>jobQueue := rest\<rparr>"
  let ?w1 = "markRunning (jobId m) ?w0"
  let ?r = "\<lambda>j. j\<lparr>job_status := ''running'', started_at := Some (clock w)\<rparr>"
  from phase_head [OF inv q] obtain ds p ps where
    js: "jobs_of ?v w = ds @ p # ps" and cd: "all_status ''completed'' ds"
    and pp: "all_status ''pending'' (p # ps)" and m: "m = msg_of p"
    by blast
  from inv have d: "distinct (map job_id (jobs w))"
    and so: "\<And>wid. sorted_wrt (<) (map priority (jobs_of wid w))"
    and ph: "\<And>wid. phase wid w"
    by (simp_all add: Inv_def)
  have jid: "jobId m = job_id p"
    using m by (simp add: msg_of_def)
  have j1: "jobs ?w1 = jobs (updateJob (job_id p) ?r w)"
    by (simp add: markRunning_def updateJob_def jid)
  have v1: "jobs_of x ?w1 = (if x = ?v then ds @ ?r p # ps else jobs_of x w)" for x
    unfolding jobs_of_cong [OF j1] by (rule jobs_of_update_row [OF d js]) simp
  show ?thesis
  proof (cases "wid = ?v")
    case True
    then have j1: "jobs_of wid ?w1 = ds @ [?r p] @ ps"
      by (simp add: v1)
    have "list_all terminal ds"
      using cd by (auto simp: all_status_def terminal_def list_all_iff)
    moreover have "sorted_wrt (<) (map priority (ds @ [?r p] @ ps))"
      using so [of ?v] by (simp add: js)
    ultimately have "in_order wid ?w1"
      using pp by (intro in_order_shape [OF _ _ _ _ j1]) simp_all
    moreover have "running_jobs wid ?w1 = [?r p]"
      using cd pp unfolding running_jobs_def j1
      by (auto simp: all_status_def list_all_iff filter_empty_conv)
    ultimately show ?thesis
      using True by (simp add: jid)
  next
    case False
    then have "jobs_of wid ?w1 = jobs_of wid w"
      by (simp add: v1)
    with phase_in_order [OF so [of wid] ph [of wid]] False show ?thesis
      by (simp add: in_order_def running_jobs_def)
  qed
qed

text \<open>
  C1. In every state the orchestrator reaches by creating workflows and delivering
  queued messages to processJob, for every workflow: a job that has left \<open>pending\<close> has
  every job of lower priority of its workflow in a terminal status (\<open>completed\<close> or \<open>failed\<close>),
  and between deliveries no job is \<open>running\<close>. When the oldest message is delivered, the
  same holds right after processJob has marked its job \<open>running\<close>, and that job is then
  the only running job of its workflow.
\<close>

theorem jobs_start_in_priority_order:
  assumes "reachable exec w"
  shows "in_order wid w \<and> running_jobs wid w = [] \<and>
         (\<forall>bullJob waiting. jobQueue w = bullJob # waiting \<longrightarrow>
            in_order wid (markRunning (jobId bullJob) (w\<lparr>jobQueue := waiting\<rparr>)) \<and>
            map job_id (running_jobs wid (markRunning (jobId bullJob) (w\<lparr>jobQueue := waiting\<rparr>))) =
              (if wid = workflowId bullJob then [jobId bullJob] else []))"
proof -
  have inv: "Inv w"
    using assms by (rule Inv_reachable)
  then have "sorted_wrt (<) (map priority (jobs_of wid w))" "phase wid w"
    by (simp_all add: Inv_def)
  from phase_in_order [OF this] Inv_started [OF inv] show ?thesis
    by blast
qed

theorem jobs_start_in_priority_order_witness:
  "in_order 1 (listing_started flaky_unit) \<and>
   running_jobs 1 (listing_started flaky_unit) = [] \<and>
   in_order 1 (markRunning 2 ((listing_started flaky_unit)\<lparr>jobQueue := []\<rparr>)) \<and>
   map job_id (running_jobs 1 (markRunning 2 ((listing_started flaky_unit)\<lparr>jobQueue := []\<rparr>))) = [2]"
  using jobs_start_in_priority_order [where exec = flaky_unit
      and w = "listing_started flaky_unit" and wid = 1, OF reachable_listing_started]
    listing_started_queue(1)
  by simp

subsection \<open>Failure, completion, creation\<close>




text \<open>
  C3. If every job of a workflow is \<open>completed\<close>, processNextJob finds no pending job
  and is completeWorkflow, after which each row of the workflow is \<open>completed\<close> with
  \<open>completed_at\<close> set to the clock. And in every state the orchestrator reaches, a workflow
  that has jobs, all of them \<open>completed\<close>, has one row, \<open>completed\<close> with \<open>completed_at\<close> set.
\<close>

theorem all_jobs_completed_completes_workflow:
  "(all_status ''completed'' (jobs_of wid w) \<longrightarrow>
      selectNextPending wid w = [] \<and>
      processNextJob wid w = completeWorkflow wid w \<and>
      selectWorkflow wid (snd (processNextJob wid w)) =
        map (\<lambda>x. x\<lparr>wf_status := ''completed'', wf_completed_at := Some (clock w),
                    updated_at := clock w\<rparr>) (selectWorkflow wid w)) \<and>
   (reachable exec w \<and> jobs_of wid w \<noteq> [] \<and> all_status ''completed'' (jobs_of wid w) \<longrightarrow>
      (\<exists>x. selectWorkflow wid w = [x] \<and> wf_status x = ''completed'' \<and>
           wf_completed_at x \<noteq> None))"
proof (intro conjI impI)
  assume ac: "all_status ''completed'' (jobs_of wid w)"
  then show none: "selectNextPending wid w = []"
    by (auto simp: selectNextPending_Nil all_status_def list_all_iff)
  then show "processNextJob wid w = completeWorkflow wid w"
    by (simp add: processNextJob_def)
  then show "selectWorkflow wid (snd (processNextJob wid w)) =
        map (\<lambda>x. x\<lparr>wf_status := ''completed'', wf_completed_at := Some (clock w),
                    updated_at := clock w\<rparr>) (selectWorkflow wid w)"
    by (simp add: selectWorkflow_completeWorkflow)
next
  assume "reachable exec w \<and> jobs_of wid w \<noteq> [] \<and> all_status ''completed'' (jobs_of wid w)"
  then have inv: "Inv w" and ne: "jobs_of wid w \<noteq> []"
    and ac: "all_status ''completed'' (jobs_of wid w)"
    by (auto intro: Inv_reachable)
  from inv have "phase wid w"
    by (simp add: Inv_def)
  with ne ac have "finished wid w"
    by (auto simp: phase_def in_progress_def halted_def rejected_def absent_def)
  then show "\<exists>x. selectWorkflow wid w = [x] \<and> wf_status x = ''completed'' \<and>
           wf_completed_at x \<noteq> None"
    by (simp add: finished_def)
qed

theorem all_jobs_completed_completes_workflow_witness:
  "selectNextPending 1 (deliver executeNode test_queued) = [] \<and>
   processNextJob 1 (deliver executeNode test_queued) =
     completeWorkflow 1 (deliver executeNode test_queued) \<and>
   (\<exists>x. selectWorkflow 1 (deliver executeNode test_queued) = [x] \<and>
      wf_status x = ''completed'' \<and> wf_completed_at x \<noteq> None)"
proof -
  have a: "all_status ''completed'' (jobs_of 1 (deliver executeNode test_queued))"
    and n: "jobs_of 1 (deliver executeNode test_queued) \<noteq> []"
    by (simp_all add: test_done_eq jobs_of_def all_status_def)
  from all_jobs_completed_completes_workflow [where exec = executeNode and wid = 1
      and w = "deliver executeNode test_queued"] a n reachable_test_done [of executeNode]
  show ?thesis
    by blast
qed

lemma upto_plan_priorities: "map (\<lambda>k. int k + 1) [0..<n] = [1..int n]"
proof (induction n)
  case 0
  show ?case by simp
next
  case (Suc n)
  have "[1..int (Suc n)] = [1..int n] @ [int n + 1]"
    using upto_rec2 [of 1 "int n + 1"] by (simp add: add.commute)
  with Suc show ?case by simp
qed

lemma store_ok_fresh:
  assumes "store_ok w"
  shows "selectWorkflow (next_workflow_id w) w = []" and "jobs_of (next_workflow_id w) w = []"
  using assms
  by (auto simp: store_ok_def selectWorkflow_def jobs_of_def list_all_iff filter_empty_conv)

lemma fits_refused:
  assumes "fits 255 t" and "case pid of None \<Rightarrow> True | Some p \<Rightarrow> fits 255 p"
  shows "refused t ''pending'' pid = None"
  using assms by (auto simp: refused_def fits_def has_nul_def split: option.splits)

lemma getExecutionPlan_long:
  assumes "20 < length t"
  shows "getExecutionPlan t = StepArray [''test_node'']"
proof (rule getExecutionPlan_fallback)
  have "\<forall>k \<in> fst ` set plans. length k \<le> 20"
    by (simp add: plans_def)
  with assms have "t \<notin> fst ` set plans"
    by auto
  then show "map_of plans t = None"
    by (simp add: map_of_eq_None_iff)
  have "\<forall>k \<in> fst ` set object_prototype. length k \<le> 20"
    by (simp add: object_prototype_def)
  with assms have "t \<notin> fst ` set object_prototype"
    by auto
  then show "map_of object_prototype t = None"
    by (simp add: map_of_eq_None_iff)
qed

lemma refused_long_label: "refused long_label ''pending'' None = Some (ValueTooLong 255)"
proof -
  have "\<not> has_nul long_label"
    by (simp add: has_nul_def long_label_def)
  then show ?thesis
    by (simp add: refused_def has_nul_def long_label_def)
qed

text \<open>
  C4. The claim: for every workflow type whose plan has N steps, createWorkflow inserts
  N job rows; and queueWorkflow fails with NotFound for an id that no workflow has. A
  label of 256 characters resolves to the plan of one step, but the column \<^verbatim>\<open>name\<close> is
  VARCHAR(255): the INSERT of the workflow fails, createWorkflow rejects with the store's
  error, and no row is inserted. The same holds for a label with the character NUL, which
  the store refuses in a text. And no workflow has the id 2147483648, but the id column
  is a 32-bit INTEGER: the SELECT of queueWorkflow fails, and queueWorkflow rejects with
  the store's error, not with NotFound.
\<close>

theorem createWorkflow_label_too_long:
  "length long_label = 256 \<and>
   getExecutionPlan long_label = StepArray [''test_node''] \<and>
   createWorkflow None (Some long_label) initial_world = (Inl (ValueTooLong 255), initial_world) \<and>
   getExecutionPlan [CHR 0x00] = StepArray [''test_node''] \<and>
   createWorkflow None (Some [CHR 0x00]) initial_world = (Inl InvalidByteSequence, initial_world) \<and>
   workflows initial_world = [] \<and> jobs initial_world = [] \<and>
   selectWorkflow 2147483648 initial_world = [] \<and>
   queueWorkflow 2147483648 initial_world = (Inl (IntegerOutOfRange 2147483648), initial_world)"
proof -
  have len: "length long_label = 256"
    by (simp add: long_label_def)
  have "getExecutionPlan long_label = StepArray [''test_node'']"
    by (rule getExecutionPlan_long) (simp add: len)
  moreover have "createWorkflow None (Some long_label) initial_world =
      (Inl (ValueTooLong 255), initial_world)"
    by (rule createWorkflow_refused [where t = long_label]) (simp_all add: refused_long_label)
  moreover have "getExecutionPlan [CHR 0x00] = StepArray [''test_node'']"
    by (rule getExecutionPlan_fallback) (simp_all add: plans_def object_prototype_def)
  moreover have "createWorkflow None (Some [CHR 0x00]) initial_world =
      (Inl InvalidByteSequence, initial_world)"
    by (rule createWorkflow_refused [where t = "[CHR 0x00]"])
       (simp_all add: refused_def has_nul_def)
  moreover have sel: "selectWorkflow 2147483648 initial_world = []"
    by (simp add: selectWorkflow_def initial_world_def)
  moreover have "queueWorkflow 2147483648 initial_world =
      (Inl (IntegerOutOfRange 2147483648), initial_world)"
    by (simp add: queueWorkflow_no_row [OF sel] int4_max_def)
  moreover have "workflows initial_world = []" "jobs initial_world = []"
    by (simp_all add: initial_world_def)
  ultimately show ?thesis
    using len by simp
qed

text \<open>
  C4, amended. Take a store whose ids lie below the SERIAL counters, with the counters
  within the INTEGER range, a workflow type of at most 255 characters and a property
  reference of at most 255 characters (neither with the character NUL). If the type
  resolves to a plan of N steps, one call of createWorkflow returns the new id; it appends
  exactly N rows to the jobs table, which are all the jobs of the new workflow: the i-th
  has the i-th step of the plan as its \<open>node_name\<close>, priority i + 1 (the priorities are
  1, ..., N in plan order) and status \<open>pending\<close>; and the workflow's row is \<open>queued\<close>.
  queueWorkflow on an id that no workflow row has changes nothing: it fails with NotFound
  when the id is within the INTEGER range, and with the store's range error above it.
\<close>

theorem createWorkflow_queues_plan:
  "(store_ok w \<and> next_workflow_id w \<le> 2147483647 \<and>
    next_job_id w + length steps \<le> 2147483648 \<and>
    label = (case workflowType of None \<Rightarrow> ''full_listing'' | Some t \<Rightarrow> t) \<and>
    fits 255 label \<and> (case propertyId of None \<Rightarrow> True | Some p \<Rightarrow> fits 255 p) \<and>
    getExecutionPlan label = StepArray steps \<longrightarrow>
      (\<exists>w' js. createWorkflow propertyId workflowType w = (Inr (next_workflow_id w), w') \<and>
         jobs w' = jobs w @ js \<and> jobs_of (next_workflow_id w) w' = js \<and>
         length js = length steps \<and> map node_name js = steps \<and>
         map priority js = [1..int (length steps)] \<and> all_status ''pending'' js \<and>
         map wf_status (selectWorkflow (next_workflow_id w) w') = [''queued''])) \<and>
   (wid \<notin> set (map wf_id (workflows w)) \<and> wid \<le> 2147483647 \<longrightarrow>
      queueWorkflow wid w = (Inl (WorkflowNotFound wid), w)) \<and>
   (wid \<notin> set (map wf_id (workflows w)) \<and> 2147483647 < wid \<longrightarrow>
      queueWorkflow wid w = (Inl (IntegerOutOfRange wid), w))"
proof (intro conjI impI)
  let ?n = "next_workflow_id w"
  assume "store_ok w \<and> next_workflow_id w \<le> 2147483647 \<and>
    next_job_id w + length steps \<le> 2147483648 \<and>
    label = (case workflowType of None \<Rightarrow> ''full_listing'' | Some t \<Rightarrow> t) \<and>
    fits 255 label \<and> (case propertyId of None \<Rightarrow> True | Some p \<Rightarrow> fits 255 p) \<and>
    getExecutionPlan label = StepArray steps"
  then have ok: "store_ok w"
    and t: "label = (case workflowType of None \<Rightarrow> ''full_listing'' | Some t \<Rightarrow> t)"
    and f: "fits 255 label" "case propertyId of None \<Rightarrow> True | Some p \<Rightarrow> fits 255 p"
    and plan: "getExecutionPlan label = StepArray steps"
    by blast+
  note fresh = store_ok_fresh [OF ok]
  let ?js = "plan_jobs ?n steps 0 w"
  let ?w' = "created_world propertyId label steps w"
  have "createWorkflow propertyId workflowType w = (Inr ?n, ?w')"
    by (rule createWorkflow_StepArray [OF fresh t fits_refused [OF f] plan])
  moreover have "jobs ?w' = jobs w @ ?js"
    by (simp add: created_world_def)
  moreover have "jobs_of ?n ?w' = ?js"
    using fresh(2) by (simp add: jobs_of_def created_world_def filter_plan_jobs)
  moreover have "selectWorkflow ?n ?w' = [new_workflow ?n label ''queued'' propertyId (clock w)]"
    using fresh(1) by (simp add: selectWorkflow_def created_world_def)
  ultimately show "\<exists>w' js. createWorkflow propertyId workflowType w = (Inr ?n, w') \<and>
         jobs w' = jobs w @ js \<and> jobs_of ?n w' = js \<and>
         length js = length steps \<and> map node_name js = steps \<and>
         map priority js = [1..int (length steps)] \<and> all_status ''pending'' js \<and>
         map wf_status (selectWorkflow ?n w') = [''queued'']"
    by (intro exI [of _ ?w'] exI [of _ ?js])
       (simp add: plan_jobs_props upto_plan_priorities)
next
  assume "wid \<notin> set (map wf_id (workflows w)) \<and> wid \<le> 2147483647"
  then have "selectWorkflow wid w = []" and "wid \<le> 2147483647"
    by (auto simp: selectWorkflow_def filter_empty_conv)
  then show "queueWorkflow wid w = (Inl (WorkflowNotFound wid), w)"
    by (simp add: queueWorkflow_no_row int4_max_def)
next
  assume "wid \<notin> set (map wf_id (workflows w)) \<and> 2147483647 < wid"
  then have "selectWorkflow wid w = []" and "2147483647 < wid"
    by (auto simp: selectWorkflow_def filter_empty_conv)
  then show "queueWorkflow wid w = (Inl (IntegerOutOfRange wid), w)"
    by (simp add: queueWorkflow_no_row int4_max_def)
qed

theorem createWorkflow_queues_plan_witness:
  "jobs mixed_world \<noteq> [] \<and>
   (\<exists>w' js. createWorkflow (Some ''P7'') None mixed_world = (Inr 3, w') \<and>
      jobs w' = jobs mixed_world @ js \<and> jobs_of 3 w' = js \<and> length js = 10 \<and>
      map node_name js =
        [''mls_data_ingester'', ''property_photos_collector'', ''competitive_analysis_engine'',
         ''master_content_generator'', ''facebook_post_generator'',
         ''instagram_caption_generator'', ''facebook_publisher'', ''instagram_publisher'',
         ''engagement_tracker'', ''lead_capture_monitor''] \<and>
      map priority js = [1, 2, 3, 4, 5, 6, 7, 8, 9, 10] \<and> all_status ''pending'' js \<and>
      map wf_status (selectWorkflow 3 w') = [''queued'']) \<and>
   queueWorkflow 7 mixed_world = (Inl (WorkflowNotFound 7), mixed_world) \<and>
   queueWorkflow 2147483648 mixed_world = (Inl (IntegerOutOfRange 2147483648), mixed_world)"
proof -
  let ?steps = "[''mls_data_ingester'', ''property_photos_collector'',
       ''competitive_analysis_engine'', ''master_content_generator'',
       ''facebook_post_generator'', ''instagram_caption_generator'', ''facebook_publisher'',
       ''instagram_publisher'', ''engagement_tracker'', ''lead_capture_monitor'']"
  have nx: "next_workflow_id mixed_world = 3" and njb: "next_job_id mixed_world = 3"
    and ids: "map wf_id (workflows mixed_world) = [1, 2]"
    and ne: "jobs mixed_world \<noteq> []"
    and ok: "store_ok mixed_world"
    by (simp_all add: mixed_world_eq store_ok_def)
  have h1: "store_ok mixed_world \<and> next_workflow_id mixed_world \<le> 2147483647 \<and>
    next_job_id mixed_world + length ?steps \<le> 2147483648 \<and>
    ''full_listing'' = (case None of None \<Rightarrow> ''full_listing'' | Some t \<Rightarrow> t) \<and>
    fits 255 ''full_listing'' \<and> (case Some ''P7'' of None \<Rightarrow> True | Some p \<Rightarrow> fits 255 p) \<and>
    getExecutionPlan ''full_listing'' = StepArray ?steps"
    by (simp add: ok nx njb fits_def has_nul_def getExecutionPlan_full_listing)
  have h2: "7 \<notin> set (map wf_id (workflows mixed_world)) \<and> (7::nat) \<le> 2147483647"
    and h3: "2147483648 \<notin> set (map wf_id (workflows mixed_world)) \<and>
      (2147483647::nat) < 2147483648"
    by (simp_all add: ids)
  have len: "length ?steps = 10"
    by simp
  have up: "[1..int 10] = [1, 2, 3, 4, 5, 6, 7, 8, 9, 10]"
    by (simp add: upto_rec1)
  note T = createWorkflow_queues_plan [where w = mixed_world and workflowType = None
      and label = "''full_listing''" and steps = ?steps and propertyId = "Some ''P7''"]
  note a = T [where wid = 7, THEN conjunct1, rule_format, OF h1, unfolded nx len up]
  note b = T [where wid = 7, THEN conjunct2, THEN conjunct1, rule_format, OF h2]
  note c = T [where wid = 2147483648, THEN conjunct2, THEN conjunct2, rule_format, OF h3]
  from ne a b c show ?thesis
    by (intro conjI)
qed

subsection \<open>Workflow status transitions\<close>

lemma status_writes_deliver: "status_writes {''completed'', ''failed''} w (deliver exec w)"
proof (cases "jobQueue w")
  case Nil
  then show ?thesis
    by (simp add: deliver_def status_writes_same)
next
  case (Cons m rest)
  have "status_writes {''completed'', ''failed''} (w\<lparr>jobQueue := rest\<rparr>)
      (snd (processJob_with exec m (w\<lparr>jobQueue := rest\<rparr>)))"
    by (rule status_writes_processJob_with)
  with Cons show ?thesis
    by (simp add: deliver_def status_writes_def)
qed

lemma no_pending_written:
  assumes "status_writes S w w'" and "''pending'' \<notin> S"
  shows "list_all2 (\<lambda>a b. wf_id b = wf_id a \<and> (wf_status b = ''pending'' \<longrightarrow> wf_status a = ''pending''))
           (workflows w) (workflows w')"
  using assms(1) unfolding status_writes_def
  by (rule list_all2_mono) (use assms(2) in auto)

lemma step_existing_rows:
  assumes inv: "Inv w" and st: "step exec w w'"
  shows "list_all2 (\<lambda>a b. wf_id b = wf_id a \<and> wf_name b = wf_name a \<and>
                   (wf_status b = wf_status a \<or> wf_status b \<in> {''completed'', ''failed''}))
           (workflows w) (take (length (workflows w)) (workflows w'))"
  using st
proof cases
  case (create propertyId workflowType)
  from inv have "absent (next_workflow_id w) w"
    by (simp add: Inv_def)
  from createWorkflow_effect [OF this, of propertyId workflowType] create show ?thesis
    by (auto simp: list_all2_same)
next
  case deliver
  have "length (workflows (deliver exec w)) = length (workflows w)"
    using status_writes_deliver [of w exec] by (simp add: status_writes_def list_all2_lengthD)
  with deliver status_writes_deliver [of w exec] show ?thesis
    by (simp add: status_writes_def)
next
  case (tick d)
  then show ?thesis
    by (simp add: list_all2_same)
qed

text \<open>
  C6. queueWorkflow, processJob (with any step-execution unit) and completeWorkflow keep
  every workflow row in place with its id, and a row that is \<open>pending\<close> afterwards was
  \<open>pending\<close> before: none of them writes \<open>pending\<close>. Along every step from a state the
  orchestrator reaches (a createWorkflow call, a delivery, a clock tick), the status of
  each existing workflow row stays or moves forward on the chain pending, queued,
  (running), completed or failed.
\<close>

theorem workflow_status_monotonic:
  "list_all2 (\<lambda>a b. wf_id b = wf_id a \<and> (wf_status b = ''pending'' \<longrightarrow> wf_status a = ''pending''))
     (workflows w) (workflows (snd (queueWorkflow wid w))) \<and>
   list_all2 (\<lambda>a b. wf_id b = wf_id a \<and> (wf_status b = ''pending'' \<longrightarrow> wf_status a = ''pending''))
     (workflows w) (workflows (snd (processJob_with exec bullJob w))) \<and>
   list_all2 (\<lambda>a b. wf_id b = wf_id a \<and> (wf_status b = ''pending'' \<longrightarrow> wf_status a = ''pending''))
     (workflows w) (workflows (snd (completeWorkflow wid w))) \<and>
   (reachable exec w \<and> step exec w w' \<longrightarrow>
      list_all2 (\<lambda>a b. wf_id b = wf_id a \<and>
                    status_rank (wf_status a) \<le> status_rank (wf_status b))
        (workflows w) (take (length (workflows w)) (workflows w')))"
proof (intro conjI impI)
  show "list_all2 (\<lambda>a b. wf_id b = wf_id a \<and> (wf_status b = ''pending'' \<longrightarrow> wf_status a = ''pending''))
     (workflows w) (workflows (snd (queueWorkflow wid w)))"
    by (rule no_pending_written [OF status_writes_queueWorkflow]) simp
  show "list_all2 (\<lambda>a b. wf_id b = wf_id a \<and> (wf_status b = ''pending'' \<longrightarrow> wf_status a = ''pending''))
     (workflows w) (workflows (snd (processJob_with exec bullJob w)))"
    by (rule no_pending_written [OF status_writes_processJob_with]) simp
  show "list_all2 (\<lambda>a b. wf_id b = wf_id a \<and> (wf_status b = ''pending'' \<longrightarrow> wf_status a = ''pending''))
     (workflows w) (workflows (snd (completeWorkflow wid w)))"
    by (rule no_pending_written [OF status_writes_completeWorkflow]) simp
next
  assume "reachable exec w \<and> step exec w w'"
  then have "Inv w" "step exec w w'"
    by (auto intro: Inv_reachable)
  from step_existing_rows [OF this]
  show "list_all2 (\<lambda>a b. wf_id b = wf_id a \<and>
                    status_rank (wf_status a) \<le> status_rank (wf_status b))
        (workflows w) (take (length (workflows w)) (workflows w'))"
    by (rule list_all2_mono) (auto simp: status_rank_def)
qed

theorem workflow_status_monotonic_witness:
  "map wf_status (workflows mixed_world) = [''pending'', ''queued''] \<and>
   list_all2 (\<lambda>a b. wf_id b = wf_id a \<and> (wf_status b = ''pending'' \<longrightarrow> wf_status a = ''pending''))
     (workflows mixed_world) (workflows (snd (queueWorkflow 2 mixed_world))) \<and>
   map wf_status (workflows (snd (queueWorkflow 2 mixed_world))) = [''pending'', ''queued''] \<and>
   list_all2 (\<lambda>a b. wf_id b = wf_id a \<and> (wf_status b = ''pending'' \<longrightarrow> wf_status a = ''pending''))
     (workflows mixed_world)
     (workflows (snd (processJob_with flaky_unit
        \<lparr>jobId = 2, workflowId = 2, nodeName = ''test_node''\<rparr> mixed_world))) \<and>
   list_all2 (\<lambda>a b. wf_id b = wf_id a \<and> (wf_status b = ''pending'' \<longrightarrow> wf_status a = ''pending''))
     (workflows mixed_world) (workflows (snd (completeWorkflow 2 mixed_world))) \<and>
   map wf_status (workflows (snd (completeWorkflow 2 mixed_world))) = [''pending'', ''completed''] \<and>
   list_all2 (\<lambda>a b. wf_id b = wf_id a \<and>
                 status_rank (wf_status a) \<le> status_rank (wf_status b))
     (workflows mixed_world)
     (take (length (workflows mixed_world)) (workflows (deliver flaky_unit mixed_world))) \<and>
   map wf_status (workflows (deliver flaky_unit mixed_world)) = [''pending'', ''completed'']"
proof -
  have st: "step flaky_unit mixed_world (deliver flaky_unit mixed_world)"
    by (rule step.deliver)
  have ev: "map wf_status (workflows mixed_world) = [''pending'', ''queued'']"
    "map wf_status (workflows (snd (queueWorkflow 2 mixed_world))) = [''pending'', ''queued'']"
    "map wf_status (workflows (snd (completeWorkflow 2 mixed_world))) = [''pending'', ''completed'']"
    "map wf_status (workflows (deliver flaky_unit mixed_world)) = [''pending'', ''completed'']"
    by (simp_all add: mixed_world_eq flaky_unit_def run_defs)
  from workflow_status_monotonic [where w = mixed_world and wid = 2 and exec = flaky_unit
      and bullJob = "\<lparr>jobId = 2, workflowId = 2, nodeName = ''test_node''\<rparr>"
      and w' = "deliver flaky_unit mixed_world"]
    reachable_mixed_world [of flaky_unit] st ev
  show ?thesis
    by blast
qed

text \<open>
  C7. The claim: every workflow is \<open>running\<close> at some point before it becomes \<open>completed\<close>
  or \<open>failed\<close>. The run of a \<^verbatim>\<open>test\<close> workflow in the empty store: its row is inserted
  \<open>pending\<close>; createWorkflow leaves it \<open>queued\<close>; the delivery of its one job marks the job
  running and completed, which leaves the row \<open>queued\<close>, and then is completeWorkflow on
  that state, which leaves the row \<open>completed\<close>. The row is never \<open>running\<close>.
\<close>

theorem workflow_completes_from_queued:
  "map wf_status (workflows (snd (insertWorkflow ''test'' ''pending'' (Some ''P1'')
       [(''type'', ''test'')] initial_world))) = [''pending''] \<and>
   map wf_status (workflows test_queued) = [''queued''] \<and>
   map wf_status (workflows (markRunning 1 (test_queued\<lparr>jobQueue := []\<rparr>))) = [''queued''] \<and>
   map wf_status (workflows
     (markCompleted 1 \<lparr>res_nodeName = ''test_node'', res_status = ''success'', res_timestamp = 1000\<rparr>
        ((markRunning 1 (test_queued\<lparr>jobQueue := []\<rparr>))\<lparr>clock := 1000\<rparr>))) = [''queued''] \<and>
   deliver executeNode test_queued =
     snd (completeWorkflow 1
       (markCompleted 1 \<lparr>res_nodeName = ''test_node'', res_status = ''success'', res_timestamp = 1000\<rparr>
          ((markRunning 1 (test_queued\<lparr>jobQueue := []\<rparr>))\<lparr>clock := 1000\<rparr>))) \<and>
   map wf_status (workflows (deliver executeNode test_queued)) = [''completed'']"
  by (simp add: test_done_eq) (simp add: test_queued_eq run_defs)

text \<open>
  C7, amended. In every state the orchestrator reaches, the status of each workflow row
  is \<open>pending\<close>, \<open>queued\<close>, \<open>completed\<close> or \<open>failed\<close>, never \<open>running\<close>; and when a step (a
  createWorkflow call, a delivery, a clock tick) changes the status of a workflow's row,
  the row was \<open>queued\<close> and becomes \<open>completed\<close> or \<open>failed\<close>.
\<close>

theorem workflow_status_chain:
  assumes r: "reachable exec w"
  shows "list_all (\<lambda>x. wf_status x \<in> set [''pending'', ''queued'', ''completed'', ''failed''])
           (workflows w) \<and>
         (\<forall>w' x y. step exec w w' \<and> selectWorkflow wid w = [x] \<and> selectWorkflow wid w' = [y] \<and>
            wf_status y \<noteq> wf_status x \<longrightarrow>
            wf_status x = ''queued'' \<and> (wf_status y = ''completed'' \<or> wf_status y = ''failed''))"
proof (rule conjI; (intro allI impI)?)
  have inv: "Inv w"
    using r by (rule Inv_reachable)
  show "list_all (\<lambda>x. wf_status x \<in> set [''pending'', ''queued'', ''completed'', ''failed''])
           (workflows w)"
    unfolding list_all_iff
  proof
    fix x assume "x \<in> set (workflows w)"
    then have x: "x \<in> set (selectWorkflow (wf_id x) w)"
      by (simp add: selectWorkflow_def)
    from inv have "phase (wf_id x) w"
      by (simp add: Inv_def)
    then have "wf_status x \<in> {''pending'', ''queued'', ''completed'', ''failed''}"
      using x
      by (auto simp: phase_def in_progress_def finished_def halted_def rejected_def absent_def
          map_eq_Cons_conv)
    then show "wf_status x \<in> set [''pending'', ''queued'', ''completed'', ''failed'']"
      by simp
  qed
next
  have inv: "Inv w"
    using r by (rule Inv_reachable)
  fix w' x y
  assume a: "step exec w w' \<and> selectWorkflow wid w = [x] \<and> selectWorkflow wid w' = [y] \<and>
            wf_status y \<noteq> wf_status x"
  then have st: "step exec w w'" and sx: "selectWorkflow wid w = [x]"
    and sy: "selectWorkflow wid w' = [y]" and ne: "wf_status y \<noteq> wf_status x"
    by simp_all
  have ms: "msgs_of wid w \<noteq> []"
  proof
    assume "msgs_of wid w = []"
    from step_stable [OF inv st this] sx sy ne show False
      by (simp add: same_view_def)
  qed
  from inv have "phase wid w"
    by (simp add: Inv_def)
  with ms sx have q: "wf_status x = ''queued''"
    by (auto simp: phase_def in_progress_def finished_def halted_def rejected_def absent_def)
  from st ms have w': "w' = deliver exec w"
  proof cases
    case (create propertyId workflowType)
    have "wid \<noteq> next_workflow_id w"
    proof
      assume "wid = next_workflow_id w"
      with inv have "absent wid w" by (simp add: Inv_def)
      with sx show False by (simp add: absent_def)
    qed
    from createWorkflow_other [OF inv this, of propertyId workflowType] create sx sy ne
    show ?thesis
      by (simp add: same_view_def)
  next
    case deliver
    then show ?thesis .
  next
    case (tick d)
    with sx sy ne show ?thesis
      by (simp add: selectWorkflow_def)
  qed
  from status_writes_select [OF status_writes_deliver, of wid w exec] sx sy ne
  have "wf_status y = ''completed'' \<or> wf_status y = ''failed''"
    by (simp add: w')
  with q show "wf_status x = ''queued'' \<and> (wf_status y = ''completed'' \<or> wf_status y = ''failed'')"
    by simp
qed

theorem workflow_status_chain_witness:
  "list_all (\<lambda>x. wf_status x \<in> set [''pending'', ''queued'', ''completed'', ''failed''])
     (workflows test_queued) \<and>
   selectWorkflow 1 test_queued \<noteq> [] \<and>
   wf_status (hd (selectWorkflow 1 test_queued)) = ''queued'' \<and>
   wf_status (hd (selectWorkflow 1 (deliver executeNode test_queued))) = ''completed''"
proof -
  let ?x = "hd (selectWorkflow 1 test_queued)"
  let ?y = "hd (selectWorkflow 1 (deliver executeNode test_queued))"
  note T = workflow_status_chain [where exec = executeNode and w = test_queued and wid = 1,
      OF reachable_test_queued]
  have st: "step executeNode test_queued (deliver executeNode test_queued)"
    by (rule step.deliver)
  have sx: "selectWorkflow 1 test_queued = [?x]"
    by (simp add: test_queued_eq selectWorkflow_def)
  have sy: "selectWorkflow 1 (deliver executeNode test_queued) = [?y]"
    by (simp add: test_done_eq selectWorkflow_def)
  have c: "wf_status ?y = ''completed''"
    by (simp add: test_done_eq selectWorkflow_def)
  have ne: "wf_status ?y \<noteq> wf_status ?x"
    by (simp add: test_done_eq selectWorkflow_def) (simp add: test_queued_eq selectWorkflow_def)
  have q: "wf_status ?x = ''queued'' \<and> (wf_status ?y = ''completed'' \<or> wf_status ?y = ''failed'')"
    by (rule conjunct2 [OF T, rule_format, of "deliver executeNode test_queued" ?x ?y])
       (intro conjI st sx sy ne)
  have ex: "selectWorkflow 1 test_queued \<noteq> []"
    by (simp add: test_queued_eq selectWorkflow_def)
  from conjunct1 [OF T] ex q c show ?thesis
    by (intro conjI) (erule conjunct1 | assumption)+
qed

subsection \<open>Repeated queueing, status queries, the shipped unit\<close>

lemma queueWorkflow_plan_effect:
  assumes sel: "selectWorkflow wid w = workflow # others"
    and plan: "getExecutionPlan (wf_name workflow) = StepArray steps"
  shows "fst (queueWorkflow wid w) = Inr ()"
    and "jobs (snd (queueWorkflow wid w)) = jobs w @ plan_jobs wid steps 0 w"
    and "\<exists>workflow' others'. selectWorkflow wid (snd (queueWorkflow wid w)) = workflow' # others' \<and>
           wf_name workflow' = wf_name workflow"
proof -
  note q = queueWorkflow_StepArray [OF sel plan]
  show "fst (queueWorkflow wid w) = Inr ()"
    by (simp add: q)
  show "jobs (snd (queueWorkflow wid w)) = jobs w @ plan_jobs wid steps 0 w"
    by (simp add: q)
  from status_writes_select [OF status_writes_queueWorkflow, of wid w wid]
  show "\<exists>workflow' others'. selectWorkflow wid (snd (queueWorkflow wid w)) = workflow' # others' \<and>
           wf_name workflow' = wf_name workflow"
    unfolding sel by (auto simp: list_all2_Cons1)
qed

lemma plan_jobs_rows:
  "map (\<lambda>j. (node_name j, priority j, job_status j)) (plan_jobs wid steps 0 w) =
   map (\<lambda>i. (steps ! i, int i + 1, ''pending'')) [0..<length steps]"
  by (simp add: plan_jobs_def pending_job_def)

text \<open>
  C8. For a workflow whose stored type resolves to a plan of N steps, queueWorkflow
  called twice on its id succeeds both times; the first call adds N job rows for the
  workflow and the two calls together add 2 * N: the jobs table ends with the plan's
  rows (step name, priority i + 1, \<open>pending\<close>) twice over.
\<close>

theorem queueWorkflow_twice_duplicates:
  assumes sel: "selectWorkflow wid w = workflow # others"
    and plan: "getExecutionPlan (wf_name workflow) = StepArray steps"
  shows "fst (queueWorkflow wid w) = Inr () \<and>
         fst (queueWorkflow wid (snd (queueWorkflow wid w))) = Inr () \<and>
         length (jobs_of wid (snd (queueWorkflow wid w))) =
           length (jobs_of wid w) + length steps \<and>
         length (jobs_of wid (snd (queueWorkflow wid (snd (queueWorkflow wid w))))) =
           length (jobs_of wid w) + 2 * length steps \<and>
         map (\<lambda>j. (node_name j, priority j, job_status j))
             (jobs (snd (queueWorkflow wid (snd (queueWorkflow wid w))))) =
           map (\<lambda>j. (node_name j, priority j, job_status j)) (jobs w) @
           map (\<lambda>i. (steps ! i, int i + 1, ''pending'')) [0..<length steps] @
           map (\<lambda>i. (steps ! i, int i + 1, ''pending'')) [0..<length steps]"
proof -
  let ?w1 = "snd (queueWorkflow wid w)"
  let ?w2 = "snd (queueWorkflow wid ?w1)"
  note first = queueWorkflow_plan_effect [OF sel plan]
  from first(3) obtain workflow' others' where sel': "selectWorkflow wid ?w1 = workflow' # others'"
    and "wf_name workflow' = wf_name workflow"
    by blast
  then have plan': "getExecutionPlan (wf_name workflow') = StepArray steps"
    using plan by simp
  note second = queueWorkflow_plan_effect [OF sel' plan']
  have j1: "jobs_of wid ?w1 = jobs_of wid w @ plan_jobs wid steps 0 w"
    by (simp add: jobs_of_def first(2) filter_plan_jobs)
  have j2: "jobs_of wid ?w2 = jobs_of wid ?w1 @ plan_jobs wid steps 0 ?w1"
    by (simp add: jobs_of_def second(2) filter_plan_jobs)
  have "map (\<lambda>j. (node_name j, priority j, job_status j)) (jobs ?w2) =
          map (\<lambda>j. (node_name j, priority j, job_status j)) (jobs w) @
          map (\<lambda>j. (node_name j, priority j, job_status j)) (plan_jobs wid steps 0 w) @
          map (\<lambda>j. (node_name j, priority j, job_status j)) (plan_jobs wid steps 0 ?w1)"
    by (simp add: first(2) second(2))
  then show ?thesis
    unfolding plan_jobs_rows using first(1) second(1)
    by (simp add: j1 j2 plan_jobs_props(1))
qed

theorem queueWorkflow_twice_duplicates_witness:
  "fst (queueWorkflow 1 test_queued) = Inr () \<and>
   fst (queueWorkflow 1 (snd (queueWorkflow 1 test_queued))) = Inr () \<and>
   length (jobs_of 1 test_queued) = 1 \<and>
   length (jobs_of 1 (snd (queueWorkflow 1 test_queued))) = 2 \<and>
   length (jobs_of 1 (snd (queueWorkflow 1 (snd (queueWorkflow 1 test_queued))))) = 3"
proof -
  have sel: "selectWorkflow 1 test_queued = hd (workflows test_queued) # []"
    and n: "wf_name (hd (workflows test_queued)) = ''test''"
    and l: "length (jobs_of 1 test_queued) = 1"
    by (simp_all add: test_queued_eq selectWorkflow_def jobs_of_def)
  have plan: "getExecutionPlan (wf_name (hd (workflows test_queued))) = StepArray [''test_node'']"
    by (simp add: n getExecutionPlan_test)
  from queueWorkflow_twice_duplicates [OF sel plan] l show ?thesis
    by simp
qed

text \<open>
  C9. The claim: getWorkflowStatus fails with NotFound if no workflow has the id. No
  workflow has the id 2147483648, but the id column is a 32-bit INTEGER: the first SELECT
  fails, and getWorkflowStatus rejects with the store's error, not with NotFound.
\<close>

theorem getWorkflowStatus_id_out_of_range:
  "2147483648 \<notin> set (map wf_id (workflows test_queued)) \<and>
   getWorkflowStatus 2147483648 test_queued = (Inl (IntegerOutOfRange 2147483648), test_queued) \<and>
   fst (getWorkflowStatus 2147483648 test_queued) \<noteq> Inl (WorkflowNotFound 2147483648)"
  by (simp add: test_queued_eq getWorkflowStatus_def queryWorkflow_def selectWorkflow_def
      int4_max_def)

text \<open>
  C9, amended. getWorkflowStatus leaves the world as it is. If no workflow row has the
  id, it fails: with NotFound when the id is within the INTEGER range, with the store's
  range error above it. Otherwise it returns the first workflow row with that id and the
  jobs of the workflow, each once, in ascending order of priority.
\<close>

theorem getWorkflowStatus_read_only:
  "snd (getWorkflowStatus wid w) = w \<and>
   (wid \<notin> set (map wf_id (workflows w)) \<and> wid \<le> 2147483647 \<longrightarrow>
      fst (getWorkflowStatus wid w) = Inl (WorkflowNotFound wid)) \<and>
   (wid \<notin> set (map wf_id (workflows w)) \<and> 2147483647 < wid \<longrightarrow>
      fst (getWorkflowStatus wid w) = Inl (IntegerOutOfRange wid)) \<and>
   (wid \<in> set (map wf_id (workflows w)) \<longrightarrow>
      (\<exists>workflow js. fst (getWorkflowStatus wid w) = Inr (workflow, js) \<and>
         workflow = hd (selectWorkflow wid w) \<and>
         workflow \<in> set (workflows w) \<and> wf_id workflow = wid \<and>
         mset js = mset (jobs_of wid w) \<and> sorted (map priority js)))"
proof (cases "selectWorkflow wid w")
  case Nil
  then have "wid \<notin> set (map wf_id (workflows w))"
    by (auto simp: selectWorkflow_def filter_empty_conv)
  with Nil show ?thesis
    by (simp add: getWorkflowStatus_def queryWorkflow_no_row int4_max_def)
next
  case (Cons x xs)
  then have "x \<in> set (filter (\<lambda>x. wf_id x = wid) (workflows w))"
    by (simp add: selectWorkflow_def)
  then have x: "x \<in> set (workflows w)" "wf_id x = wid"
    by auto
  then have "wid \<in> set (map wf_id (workflows w))"
    by force
  with Cons x show ?thesis
    by (simp add: getWorkflowStatus_def queryWorkflow_rows [OF Cons] selectJobs_def jobs_of_def)
qed

theorem getWorkflowStatus_read_only_witness:
  "map priority (jobs_of 1 unordered_world) = [3, 1, 2] \<and>
   snd (getWorkflowStatus 1 unordered_world) = unordered_world \<and>
   fst (getWorkflowStatus 7 unordered_world) = Inl (WorkflowNotFound 7) \<and>
   fst (getWorkflowStatus 2147483648 unordered_world) = Inl (IntegerOutOfRange 2147483648) \<and>
   (\<exists>workflow js. fst (getWorkflowStatus 1 unordered_world) = Inr (workflow, js) \<and>
      workflow = hd (selectWorkflow 1 unordered_world) \<and>
      workflow \<in> set (workflows unordered_world) \<and> wf_id workflow = 1 \<and>
      mset js = mset (jobs_of 1 unordered_world) \<and> sorted (map priority js) \<and>
      map node_name js = [''first'', ''second'', ''third''] \<and>
      map priority js = [1, 2, 3])"
proof -
  have ids: "map wf_id (workflows unordered_world) = [1, 2]"
    and pr: "map priority (jobs_of 1 unordered_world) = [3, 1, 2]"
    by (simp_all add: unordered_world_def jobs_of_def plain_job_def)
  have a: "7 \<notin> set (map wf_id (workflows unordered_world)) \<and> (7::nat) \<le> 2147483647"
    and b: "1 \<in> set (map wf_id (workflows unordered_world))"
    and c: "2147483648 \<notin> set (map wf_id (workflows unordered_world)) \<and>
      (2147483647::nat) < 2147483648"
    by (simp_all add: ids)
  note T1 = getWorkflowStatus_read_only [of 1 unordered_world]
  note T7 = getWorkflowStatus_read_only [of 7 unordered_world]
  note T8 = getWorkflowStatus_read_only [of 2147483648 unordered_world]
  from T1 [THEN conjunct2, THEN conjunct2, THEN conjunct2, rule_format, OF b]
  obtain workflow js where r: "fst (getWorkflowStatus 1 unordered_world) = Inr (workflow, js)"
    and rest: "workflow = hd (selectWorkflow 1 unordered_world)"
      "workflow \<in> set (workflows unordered_world)" "wf_id workflow = 1"
      "mset js = mset (jobs_of 1 unordered_world)" "sorted (map priority js)"
    by blast
  have "snd (projr (fst (getWorkflowStatus 1 unordered_world))) =
      [plain_job 3 1 ''first'' 1, plain_job 4 1 ''second'' 2, plain_job 1 1 ''third'' 3]"
    by (simp add: getWorkflowStatus_def queryWorkflow_def selectWorkflow_def selectJobs_def
        unordered_world_def plain_job_def)
  with r have js: "js = [plain_job 3 1 ''first'' 1, plain_job 4 1 ''second'' 2,
      plain_job 1 1 ''third'' 3]"
    by simp
  have "\<exists>workflow js. fst (getWorkflowStatus 1 unordered_world) = Inr (workflow, js) \<and>
      workflow = hd (selectWorkflow 1 unordered_world) \<and>
      workflow \<in> set (workflows unordered_world) \<and> wf_id workflow = 1 \<and>
      mset js = mset (jobs_of 1 unordered_world) \<and> sorted (map priority js) \<and>
      map node_name js = [''first'', ''second'', ''third''] \<and>
      map priority js = [1, 2, 3]"
    using r rest by (intro exI [of _ workflow] exI [of _ js]) (simp add: js plain_job_def)
  with pr T1 [THEN conjunct1] T7 [THEN conjunct2, THEN conjunct1, rule_format, OF a]
    T8 [THEN conjunct2, THEN conjunct2, THEN conjunct1, rule_format, OF c]
  show ?thesis
    by (intro conjI)
qed




end
